theory Spec2Isabelle
  imports Complex_Main "HOL-Library.Multiset"
begin

section \<open>Python and NumPy primitives used by dataset.py\<close>

text \<open>
  Exceptions are values: every function that can raise returns \<open>error + 'a\<close>, with
  \<open>Inl\<close> carrying the exception.
\<close>

datatype error = AssertionError | ValueError | IndexError | KeyError | StopIteration

text \<open>
  Python's \<open>xs[start:stop]\<close>: a negative bound counts from the end, and both bounds are
  clamped to the list.
\<close>

definition clamp_index :: "nat \<Rightarrow> int \<Rightarrow> nat" where
  "clamp_index n i = (if i < 0 then nat (max (i + int n) 0) else min (nat i) n)"

definition py_slice :: "'a list \<Rightarrow> int \<Rightarrow> int \<Rightarrow> 'a list" where
  "py_slice xs start stop =
     (let a = clamp_index (length xs) start; b = clamp_index (length xs) stop
      in take (b - a) (drop a xs))"

text \<open>
  \<open>xs.index(x)\<close>, the position of the first occurrence. The source calls it only under
  \<open>if last in idxs\<close>; for an absent element the model returns the length of the list.
\<close>

fun list_index :: "'a list \<Rightarrow> 'a \<Rightarrow> nat" where
  "list_index [] x = 0"
| "list_index (y # ys) x = (if y = x then 0 else Suc (list_index ys x))"

text \<open>\<open>xs.remove(x)\<close> deletes the first occurrence and raises ValueError when there is none.\<close>

definition list_remove :: "'a \<Rightarrow> 'a list \<Rightarrow> error + 'a list" where
  "list_remove x xs = (if x \<in> set xs then Inr (remove1 x xs) else Inl ValueError)"

text \<open>\<open>d.get(k, default)\<close> of a dictionary.\<close>

definition dict_get :: "('k \<rightharpoonup> 'v) \<Rightarrow> 'k \<Rightarrow> 'v \<Rightarrow> 'v" where
  "dict_get d k dflt = (case d k of None \<Rightarrow> dflt | Some v \<Rightarrow> v)"

text \<open>A list comprehension whose body can raise: the first exception ends it.\<close>

fun map_err :: "('a \<Rightarrow> error + 'b) \<Rightarrow> 'a list \<Rightarrow> error + 'b list" where
  "map_err f [] = Inr []"
| "map_err f (x # xs) =
     (case f x of
        Inl e \<Rightarrow> Inl e
      | Inr y \<Rightarrow> (case map_err f xs of Inl e \<Rightarrow> Inl e | Inr ys \<Rightarrow> Inr (y # ys)))"

text \<open>
  A two-dimensional array: its shape and its elements in row-major order.
\<close>

record 'a array2d =
  shape0 :: nat
  shape1 :: nat
  data :: "'a list"

text \<open>
  \<open>np.array(xs).reshape(b, c)\<close> of a flat list. One dimension may be \<open>-1\<close> and is then
  inferred; any other negative dimension, and a shape whose size is not the number of
  elements, raise ValueError.
\<close>

definition reshape :: "'a list \<Rightarrow> int \<Rightarrow> int \<Rightarrow> error + 'a array2d" where
  "reshape xs b c =
     (let n = int (length xs) in
      if b < - 1 \<or> c < - 1 \<or> (b = - 1 \<and> c = - 1) then Inl ValueError
      else if c = - 1 then
        (if b \<noteq> 0 \<and> n mod b = 0
         then Inr \<lparr>shape0 = nat b, shape1 = nat (n div b), data = xs\<rparr>
         else Inl ValueError)
      else if b = - 1 then
        (if c \<noteq> 0 \<and> n mod c = 0
         then Inr \<lparr>shape0 = nat (n div c), shape1 = nat c, data = xs\<rparr>
         else Inl ValueError)
      else if n = b * c then Inr \<lparr>shape0 = nat b, shape1 = nat c, data = xs\<rparr>
      else Inl ValueError)"

definition row :: "'a array2d \<Rightarrow> nat \<Rightarrow> 'a list" where
  "row a i = take (shape1 a) (drop (i * shape1 a) (data a))"

definition cell :: "'a array2d \<Rightarrow> nat \<Rightarrow> nat \<Rightarrow> 'a" where
  "cell a i j = row a i ! j"

text \<open>\<open>a[:, :-1]\<close> and \<open>a[:, 1:]\<close>.\<close>

definition drop_last_col :: "'a array2d \<Rightarrow> 'a array2d" where
  "drop_last_col a =
     \<lparr>shape0 = shape0 a, shape1 = shape1 a - 1,
      data = concat (map (\<lambda>i. butlast (row a i)) [0..<shape0 a])\<rparr>"

definition drop_first_col :: "'a array2d \<Rightarrow> 'a array2d" where
  "drop_first_col a =
     \<lparr>shape0 = shape0 a, shape1 = shape1 a - 1,
      data = concat (map (\<lambda>i. tl (row a i)) [0..<shape0 a])\<rparr>"

section \<open>NumPy\<close>

text \<open>
  NumPy is not part of the repository. What dataset.py uses of it is a parameter of the
  model: a type \<open>'f\<close> of double-precision values, a type \<open>'r\<close> of generator states, and
  the operations below. Nothing is assumed of the arithmetic. The operations on a
  generator take its state and return the draw with the next state:
  \<^item> \<open>np_zero\<close>, an entry of \<open>np.zeros(n)\<close>; \<open>np_add\<close>, the \<open>+=\<close> on an entry;
    \<open>np_sum a\<close> for \<open>a.sum()\<close>; \<open>np_divide\<close>, the \<open>/\<close> on an entry;
  \<^item> \<open>np_argsort a\<close> for \<open>a.argsort()\<close>, and \<open>np_less_eq\<close>, the order in which it compares
    two values (\<open>\<le>\<close> on numbers, and nan after every number);
  \<^item> \<open>default_rng seed\<close>;
  \<^item> \<open>rng_choice r a None\<close> for \<open>rng.choice(a)\<close> and \<open>rng_choice r a (Some p)\<close> for
    \<open>rng.choice(a, p=p)\<close>;
  \<^item> \<open>rng_choice_norepl r a p n\<close> for \<open>rng.choice(a, p=p, size=n, replace=False)\<close>.
\<close>

record ('f, 'r) NumPy =
  np_zero :: 'f
  np_add :: "'f \<Rightarrow> 'f \<Rightarrow> 'f"
  np_sum :: "'f list \<Rightarrow> 'f"
  np_divide :: "'f \<Rightarrow> 'f \<Rightarrow> 'f"
  np_less_eq :: "'f \<Rightarrow> 'f \<Rightarrow> bool"
  np_argsort :: "'f list \<Rightarrow> nat list"
  default_rng :: "int \<Rightarrow> 'r"
  rng_choice :: "'r \<Rightarrow> nat list \<Rightarrow> 'f list option \<Rightarrow> error + (nat \<times> 'r)"
  rng_choice_norepl :: "'r \<Rightarrow> nat list \<Rightarrow> 'f list \<Rightarrow> int \<Rightarrow> error + (nat list \<times> 'r)"

text \<open>
  What the theorems assume of the generator: a draw is an element of the array it draws
  from, and a draw of \<open>n\<close> without replacement is \<open>n\<close> elements at different positions of
  the array.
\<close>

definition generator_ok :: "('f, 'r) NumPy \<Rightarrow> bool" where
  "generator_ok g \<longleftrightarrow>
     (\<forall>r a p x r'. rng_choice g r a p = Inr (x, r') \<longrightarrow> x \<in> set a) \<and>
     (\<forall>r a p n xs r'. rng_choice_norepl g r a p n = Inr (xs, r') \<longrightarrow>
        int (length xs) = n \<and> mset xs \<subseteq># mset a)"

text \<open>
  What they assume of \<open>argsort\<close>: its result lists every index of the array once, and the
  values at these indices ascend. The order of equal values is left open (the default
  sort of NumPy is not stable).
\<close>

definition argsort_ok :: "('f, 'r) NumPy \<Rightarrow> bool" where
  "argsort_ok g \<longleftrightarrow>
     (\<forall>a. mset (np_argsort g a) = mset [0..<length a] \<and>
          sorted_wrt (\<lambda>i j. np_less_eq g (a ! i) (a ! j)) (np_argsort g a))"

text \<open>\<open>a /= a.sum()\<close>, and \<open>a / a.sum()\<close>.\<close>

definition normalize :: "('f, 'r) NumPy \<Rightarrow> 'f list \<Rightarrow> 'f list" where
  "normalize g v = map (\<lambda>x. np_divide g x (np_sum g v)) v"

section \<open>Dataset.__init__\<close>

record DataArgs =
  args_k :: int
  args_seq_length :: int
  args_show_latents :: bool
  args_fixed_special_toks :: bool
  args_special_toks_offset :: int
  args_output_counter :: bool
  args_no_repeat :: bool

text \<open>
  The unpickled \<open>data/meta.pkl\<close>; \<open>unigrams\<close> and \<open>bigrams\<close> are the items of the two
  dictionaries in their iteration order, each count as the double-precision value it is
  stored as. (\<open>itos\<close> is used by \<open>decode\<close> only.)
\<close>

record 'f Meta =
  vocab_size :: nat
  stoi :: "string \<rightharpoonup> nat"
  unigrams :: "(string \<times> 'f) list"
  bigrams :: "((string \<times> string) \<times> 'f) list"

record 'f Dataset =
  self_k :: int
  self_seq_length :: int
  self_show_latents :: bool
  self_train_test :: "string option"
  self_output_counter :: bool
  self_no_repeat :: bool
  self_bigram_outs :: bool
  self_num_tokens :: nat
  self_tok_range :: "nat list"
  self_n_train_toks :: nat
  self_marginal :: "'f list"
  self_cond :: "'f list list"
  self_idxs :: "nat list option"

text \<open>Lines 49-51: \<open>self.marginal[self.stoi[k]] = cnt\<close> for every unigram.\<close>

fun set_unigrams :: "(string \<rightharpoonup> nat) \<Rightarrow> (string \<times> 'f) list \<Rightarrow> 'f list \<Rightarrow> error + 'f list" where
  "set_unigrams st [] m = Inr m"
| "set_unigrams st ((w, cnt) # rest) m =
     (case st w of
        None \<Rightarrow> Inl KeyError
      | Some i \<Rightarrow> if i < length m then set_unigrams st rest (m[i := cnt]) else Inl IndexError)"

text \<open>Lines 55-57: \<open>self.cond[self.stoi[w1]][self.stoi[w2]] += cnt\<close> for every bigram.\<close>

fun add_bigrams ::
  "('f, 'r) NumPy \<Rightarrow> (string \<rightharpoonup> nat) \<Rightarrow> ((string \<times> string) \<times> 'f) list \<Rightarrow> 'f list list \<Rightarrow>
     error + 'f list list" where
  "add_bigrams g st [] c = Inr c"
| "add_bigrams g st (((w1, w2), cnt) # rest) c =
     (case st w1 of
        None \<Rightarrow> Inl KeyError
      | Some i \<Rightarrow>
          if \<not> i < length c then Inl IndexError
          else (case st w2 of
                  None \<Rightarrow> Inl KeyError
                | Some j \<Rightarrow>
                    if j < length (c ! i)
                    then add_bigrams g st rest (c[i := (c ! i)[j := np_add g (c ! i ! j) cnt]])
                    else Inl IndexError))"

text \<open>
  \<open>int(0.75 * V)\<close>: the product is exact in double precision for every vocabulary size
  below \<open>2^51\<close>, and truncation of the non-negative \<open>3 V / 4\<close> is the integer quotient.
\<close>

definition Dataset_init ::
  "('f, 'r) NumPy \<Rightarrow> DataArgs \<Rightarrow> string option \<Rightarrow> bool \<Rightarrow> 'f Meta \<Rightarrow> error + 'f Dataset" where
  "Dataset_init g args train_test bigram_outs meta =
     (let num_tokens = vocab_size meta in
      if train_test \<noteq> None \<and> bigram_outs then Inl AssertionError
      else
        (case set_unigrams (stoi meta) (unigrams meta) (replicate num_tokens (np_zero g)) of
           Inl e \<Rightarrow> Inl e
         | Inr m \<Rightarrow>
            (case add_bigrams g (stoi meta) (bigrams meta)
                    (replicate num_tokens (replicate num_tokens (np_zero g))) of
               Inl e \<Rightarrow> Inl e
             | Inr c \<Rightarrow>
                Inr \<lparr>self_k = args_k args,
                     self_seq_length = args_seq_length args,
                     self_show_latents = args_show_latents args,
                     self_train_test = train_test,
                     self_output_counter = args_output_counter args,
                     self_no_repeat = args_no_repeat args,
                     self_bigram_outs = bigram_outs,
                     self_num_tokens = num_tokens,
                     self_tok_range = [0..<num_tokens],
                     self_n_train_toks =
                       (if train_test \<noteq> None then (3 * num_tokens) div 4 else num_tokens),
                     self_marginal = normalize g m,
                     self_cond = map (normalize g) c,
                     self_idxs =
                       (if args_fixed_special_toks args
                        then Some (py_slice (np_argsort g (normalize g m))
                                     (int num_tokens - args_special_toks_offset args - args_k args)
                                     (int num_tokens - args_special_toks_offset args))
                        else None)\<rparr>)))"

section \<open>Dataset.gen_seq\<close>

text \<open>Lines 73-76: the special tokens of this sequence.\<close>

definition select_idxs :: "('f, 'r) NumPy \<Rightarrow> 'f Dataset \<Rightarrow> 'r \<Rightarrow> error + (nat list \<times> 'r)" where
  "select_idxs g ds r =
     (case self_idxs ds of
        Some idxs \<Rightarrow> Inr (idxs, r)
      | None \<Rightarrow> rng_choice_norepl g r (self_tok_range ds) (self_marginal ds) (self_k ds))"

text \<open>Lines 80-85: one candidate pool per special token.\<close>

definition make_pools :: "'f Dataset \<Rightarrow> nat list \<Rightarrow> error + nat list list" where
  "make_pools ds idxs =
     (if self_no_repeat ds
      then map_err (\<lambda>idx. list_remove idx (self_tok_range ds)) idxs
      else Inr (map (\<lambda>idx. self_tok_range ds) idxs))"

text \<open>
  \<open>self.cond[idx][pool] / self.cond[idx][pool].sum()\<close>: the row of the trigger, read at
  the ids of the pool and renormalised.
\<close>

definition pool_probs ::
  "('f, 'r) NumPy \<Rightarrow> 'f Dataset \<Rightarrow> nat \<Rightarrow> nat list \<Rightarrow> error + 'f list" where
  "pool_probs g ds idx pool =
     (if idx < length (self_cond ds) \<and> (\<forall>j \<in> set pool. j < length (self_cond ds ! idx))
      then Inr (normalize g (map (\<lambda>j. self_cond ds ! idx ! j) pool))
      else Inl IndexError)"

text \<open>
  The three list comprehensions of lines 89, 91, 94 and 97 draw one response per pool,
  in order, from the same generator.
\<close>

fun choose_bigram ::
  "('f, 'r) NumPy \<Rightarrow> 'f Dataset \<Rightarrow> 'r \<Rightarrow> (nat list \<times> nat) list \<Rightarrow> error + (nat list \<times> 'r)" where
  "choose_bigram g ds r [] = Inr ([], r)"
| "choose_bigram g ds r ((pool, idx) # rest) =
     (case pool_probs g ds idx pool of
        Inl e \<Rightarrow> Inl e
      | Inr p \<Rightarrow>
         (case rng_choice g r pool (Some p) of
            Inl e \<Rightarrow> Inl e
          | Inr (x, r') \<Rightarrow>
             (case choose_bigram g ds r' rest of
                Inl e \<Rightarrow> Inl e
              | Inr (xs, r'') \<Rightarrow> Inr (x # xs, r''))))"

fun choose_uniform :: "('f, 'r) NumPy \<Rightarrow> 'r \<Rightarrow> nat list list \<Rightarrow> error + (nat list \<times> 'r)" where
  "choose_uniform g r [] = Inr ([], r)"
| "choose_uniform g r (pool # rest) =
     (case rng_choice g r pool None of
        Inl e \<Rightarrow> Inl e
      | Inr (x, r') \<Rightarrow>
         (case choose_uniform g r' rest of
            Inl e \<Rightarrow> Inl e
          | Inr (xs, r'') \<Rightarrow> Inr (x # xs, r'')))"

text \<open>Lines 86-99: the response of every special token.\<close>

definition select_outs ::
  "('f, 'r) NumPy \<Rightarrow> 'f Dataset \<Rightarrow> 'r \<Rightarrow> nat list \<Rightarrow> nat list list \<Rightarrow> error + (nat list \<times> 'r)" where
  "select_outs g ds r idxs pools =
     (case self_train_test ds of
        None \<Rightarrow>
          if self_bigram_outs ds then choose_bigram g ds r (zip pools idxs)
          else choose_uniform g r pools
      | Some tt \<Rightarrow>
          if tt = ''train''
          then choose_uniform g r (map (\<lambda>pool. take (self_n_train_toks ds) pool) pools)
          else if tt = ''test''
          then choose_uniform g r (map (\<lambda>pool. drop (self_n_train_toks ds) pool) pools)
          else Inl AssertionError)"

text \<open>The variables of the while loop of lines 110-122.\<close>

record 'r loop_state =
  st_rng :: 'r
  st_cnts :: "nat \<rightharpoonup> int"
  st_seq :: "nat list"
  st_outputs_seq :: "int list"

text \<open>
  One iteration, lines 111-122. \<open>seq\<close> is not empty when the loop runs: line 109 has
  appended the first token.
\<close>

definition loop_body ::
  "('f, 'r) NumPy \<Rightarrow> 'f Dataset \<Rightarrow> nat list \<Rightarrow> nat list \<Rightarrow> 'r loop_state \<Rightarrow> error + 'r loop_state" where
  "loop_body g ds idxs outs st =
     (let lst = last (st_seq st) in
      if lst \<in> set idxs then
        (if list_index idxs lst < length outs then
           (let seq' = st_seq st @ [outs ! list_index idxs lst] in
            if self_output_counter ds then
              (let c = dict_get (st_cnts st) lst 0 + 1 in
               Inr (st\<lparr>st_cnts := (st_cnts st)(lst \<mapsto> c), st_seq := seq',
                        st_outputs_seq := st_outputs_seq st @ [c]\<rparr>))
            else Inr (st\<lparr>st_seq := seq', st_outputs_seq := st_outputs_seq st @ [1]\<rparr>))
         else Inl IndexError)
      else
        (if lst < length (self_cond ds) then
           (case rng_choice g (st_rng st) (self_tok_range ds) (Some (self_cond ds ! lst)) of
              Inl e \<Rightarrow> Inl e
            | Inr (x, r') \<Rightarrow>
                Inr (st\<lparr>st_rng := r', st_seq := st_seq st @ [x],
                         st_outputs_seq := st_outputs_seq st @ [0]\<rparr>))
         else Inl IndexError))"

function gen_loop ::
  "('f, 'r) NumPy \<Rightarrow> 'f Dataset \<Rightarrow> nat list \<Rightarrow> nat list \<Rightarrow> 'r loop_state \<Rightarrow> error + 'r loop_state" where
  "gen_loop g ds idxs outs st =
     (if int (length (st_seq st)) < self_seq_length ds + 1 then
        (case loop_body g ds idxs outs st of
           Inl e \<Rightarrow> Inl e
         | Inr st' \<Rightarrow> gen_loop g ds idxs outs st')
      else Inr st)"
  by pat_completeness auto
termination
  by (relation "measure (\<lambda>(g, ds, idxs, outs, st).
        nat (self_seq_length ds + 1 - int (length (st_seq st))))")
     (auto simp: loop_body_def Let_def split: if_splits sum.splits prod.splits)

text \<open>Lines 71-125.\<close>

definition gen_seq ::
  "('f, 'r) NumPy \<Rightarrow> 'f Dataset \<Rightarrow> 'r \<Rightarrow> error + ((nat list \<times> int list) \<times> 'r)" where
  "gen_seq g ds r =
     (case select_idxs g ds r of
        Inl e \<Rightarrow> Inl e
      | Inr (idxs, r1) \<Rightarrow>
     (case make_pools ds idxs of
        Inl e \<Rightarrow> Inl e
      | Inr pools \<Rightarrow>
     (case select_outs g ds r1 idxs pools of
        Inl e \<Rightarrow> Inl e
      | Inr (outs, r2) \<Rightarrow>
     (let seq0 = (if self_show_latents ds then idxs else []);
          outputs_seq0 = (if self_show_latents ds then replicate (length idxs) (- 1) else [])
      in
     (case rng_choice g r2 (self_tok_range ds) (Some (self_marginal ds)) of
        Inl e \<Rightarrow> Inl e
      | Inr (x, r3) \<Rightarrow>
     (case gen_loop g ds idxs outs
             \<lparr>st_rng = r3, st_cnts = Map.empty, st_seq = seq0 @ [x],
              st_outputs_seq = outputs_seq0\<rparr> of
        Inl e \<Rightarrow> Inl e
      | Inr st \<Rightarrow> Inr ((st_seq st, st_outputs_seq st @ [0]), st_rng st)))))))"

subsection \<open>Invariant of the loop\<close>

text \<open>
  \<open>position_ok\<close>: the step from position \<open>j\<close> to \<open>j + 1\<close> of a sequence and the
  annotation at \<open>j\<close> are what an iteration with \<open>last = seq[j]\<close> produces, where \<open>s0\<close>
  is the position of the first token the loop has read. \<open>trace_inv\<close> holds of the loop
  variables before and after every iteration: every step so far is right, and the
  counter of a special token is the number of iterations that have read it.
\<close>

definition position_ok ::
  "'f Dataset \<Rightarrow> nat list \<Rightarrow> nat list \<Rightarrow> nat \<Rightarrow> nat list \<Rightarrow> int list \<Rightarrow> nat \<Rightarrow> bool" where
  "position_ok ds idxs outs s0 seq os j \<longleftrightarrow>
     (if seq ! j \<in> set idxs
      then seq ! Suc j = outs ! list_index idxs (seq ! j) \<and>
           os ! j =
             (if self_output_counter ds
              then int (length (filter (\<lambda>i. seq ! i = seq ! j) [s0..<Suc j]))
              else 1)
      else os ! j = 0)"

definition trace_inv ::
  "'f Dataset \<Rightarrow> nat list \<Rightarrow> nat list \<Rightarrow> nat \<Rightarrow> 'r loop_state \<Rightarrow> bool" where
  "trace_inv ds idxs outs s0 s \<longleftrightarrow>
     s0 < length (st_seq s) \<and>
     length (st_outputs_seq s) + 1 = length (st_seq s) \<and>
     (\<forall>j. s0 \<le> j \<and> Suc j < length (st_seq s) \<longrightarrow>
          position_ok ds idxs outs s0 (st_seq s) (st_outputs_seq s) j) \<and>
     (self_output_counter ds \<longrightarrow>
        (\<forall>t \<in> set idxs. dict_get (st_cnts s) t 0 =
           int (length (filter (\<lambda>i. st_seq s ! i = t) [s0..<length (st_seq s) - 1]))))"

section \<open>Dataset.gen_batch and iterate_batches\<close>

text \<open>The for loop of lines 135-138, \<open>n\<close> iterations from the lists built so far.\<close>

fun batch_loop ::
  "('f, 'r) NumPy \<Rightarrow> 'f Dataset \<Rightarrow> nat \<Rightarrow> 'r \<Rightarrow> nat list \<Rightarrow> int list \<Rightarrow> error + (nat list \<times> int list \<times> 'r)" where
  "batch_loop g ds 0 r seqs outs = Inr (seqs, outs, r)"
| "batch_loop g ds (Suc n) r seqs outs =
     (case gen_seq g ds r of
        Inl e \<Rightarrow> Inl e
      | Inr ((seq, out), r') \<Rightarrow> batch_loop g ds n r' (seqs @ seq) (outs @ out))"

definition gen_batch ::
  "('f, 'r) NumPy \<Rightarrow> 'f Dataset \<Rightarrow> 'r \<Rightarrow> int \<Rightarrow> error + ((nat array2d \<times> int array2d) \<times> 'r)" where
  "gen_batch g ds r batch_size =
     (case batch_loop g ds (nat batch_size) r [] [] of
        Inl e \<Rightarrow> Inl e
      | Inr (seqs, outs, r') \<Rightarrow>
     (case reshape seqs batch_size (self_seq_length ds + 1) of
        Inl e \<Rightarrow> Inl e
      | Inr x \<Rightarrow>
     (case reshape outs batch_size (self_seq_length ds + 1) of
        Inl e \<Rightarrow> Inl e
      | Inr outs' \<Rightarrow> Inr ((x, outs'), r'))))"

text \<open>
  \<open>iterate_batches\<close> is a Python generator. Calling it creates a generator object
  and runs nothing; each \<open>next\<close> runs its body up to the next \<open>yield\<close>. The object is
  modelled by its arguments and its state: \<open>Created\<close> before the first \<open>next\<close> (line 158
  has not run yet), \<open>Suspended r\<close> at the \<open>yield\<close> of line 162 with the local variable
  \<open>rng\<close> in state \<open>r\<close>, and \<open>Closed\<close> once an exception has left the body. \<open>next\<close> on
  a closed generator raises StopIteration.
\<close>

datatype 'r gen_state = Created | Suspended 'r | Closed

record ('f, 'r) batch_iter =
  it_dataset :: "'f Dataset"
  it_batch_size :: int
  it_seed :: int
  it_state :: "'r gen_state"

definition iterate_batches :: "'f Dataset \<Rightarrow> int \<Rightarrow> int \<Rightarrow> ('f, 'r) batch_iter" where
  "iterate_batches dataset batch_size seed =
     \<lparr>it_dataset = dataset, it_batch_size = batch_size, it_seed = seed, it_state = Created\<rparr>"

text \<open>One turn of the \<open>while True\<close> loop, lines 161-162, with \<open>rng\<close> in state \<open>r\<close>.\<close>

definition resume ::
  "('f, 'r) NumPy \<Rightarrow> ('f, 'r) batch_iter \<Rightarrow> 'r \<Rightarrow>
     (error + (nat array2d \<times> nat array2d \<times> int array2d)) \<times> ('f, 'r) batch_iter" where
  "resume g it r =
     (case gen_batch g (it_dataset it) r (it_batch_size it) of
        Inl e \<Rightarrow> (Inl e, it\<lparr>it_state := Closed\<rparr>)
      | Inr ((x, outs), r') \<Rightarrow>
          (Inr (drop_last_col x, drop_first_col x, drop_last_col outs),
           it\<lparr>it_state := Suspended r'\<rparr>))"

definition next_batch ::
  "('f, 'r) NumPy \<Rightarrow> ('f, 'r) batch_iter \<Rightarrow>
     (error + (nat array2d \<times> nat array2d \<times> int array2d)) \<times> ('f, 'r) batch_iter" where
  "next_batch g it =
     (case it_state it of
        Created \<Rightarrow> resume g it (default_rng g (it_seed it))
      | Suspended r \<Rightarrow> resume g it r
      | Closed \<Rightarrow> (Inl StopIteration, it))"



section \<open>An instance of NumPy for test runs\<close>

text \<open>
  To run the model on concrete inputs: exact arithmetic on the reals, and a generator
  that reads its draws from a tape of numbers. A draw from \<open>a\<close> takes the next number \<open>t\<close>
  of the tape and returns \<open>a[t mod len(a)]\<close> (an exhausted tape reads 0); the weights are
  ignored. \<open>tape_gen\<close> sorts equal values in the order of their positions,
  \<open>tape_gen_ties\<close> in the reverse order.
\<close>

definition stable_argsort :: "real list \<Rightarrow> nat list" where
  "stable_argsort a = sort_key (\<lambda>i. a ! i) [0..<length a]"

definition reverse_ties_argsort :: "real list \<Rightarrow> nat list" where
  "reverse_ties_argsort a = rev (sort_key (\<lambda>i. - (a ! i)) [0..<length a])"

definition tape_head :: "nat list \<Rightarrow> nat" where
  "tape_head t = (case t of [] \<Rightarrow> 0 | x # _ \<Rightarrow> x)"

definition tape_choice :: "nat list \<Rightarrow> nat list \<Rightarrow> 'f list option \<Rightarrow> error + (nat \<times> nat list)" where
  "tape_choice t a p =
     (if a = [] then Inl ValueError else Inr (a ! (tape_head t mod length a), tl t))"

fun tape_pick :: "nat \<Rightarrow> nat list \<Rightarrow> nat list \<Rightarrow> error + (nat list \<times> nat list)" where
  "tape_pick 0 t a = Inr ([], t)"
| "tape_pick (Suc n) t a =
     (if a = [] then Inl ValueError
      else (let x = a ! (tape_head t mod length a) in
            case tape_pick n (tl t) (remove1 x a) of
              Inl e \<Rightarrow> Inl e
            | Inr (xs, t') \<Rightarrow> Inr (x # xs, t')))"

definition tape_choice_norepl ::
  "nat list \<Rightarrow> nat list \<Rightarrow> 'f list \<Rightarrow> int \<Rightarrow> error + (nat list \<times> nat list)" where
  "tape_choice_norepl t a p n = (if n < 0 then Inl ValueError else tape_pick (nat n) t a)"

definition tape_seed :: "int \<Rightarrow> nat list" where
  "tape_seed seed = map (\<lambda>i. nat \<bar>seed\<bar> + 5 * i) [0..<40]"

definition tape_gen :: "(real, nat list) NumPy" where
  "tape_gen = \<lparr>np_zero = 0, np_add = (+), np_sum = sum_list, np_divide = (/),
               np_less_eq = (\<le>), np_argsort = stable_argsort,
               default_rng = tape_seed, rng_choice = tape_choice,
               rng_choice_norepl = tape_choice_norepl\<rparr>"

definition tape_gen_ties :: "(real, nat list) NumPy" where
  "tape_gen_ties = tape_gen\<lparr>np_argsort := reverse_ties_argsort\<rparr>"

section \<open>Test data\<close>

text \<open>
  A vocabulary of four symbols with unigram counts 4, 3, 2, 1 (so the ids ordered by
  ascending frequency are 3, 2, 1, 0) and one bigram per symbol.
\<close>

definition meta4 :: "real Meta" where
  "meta4 = \<lparr>vocab_size = 4,
            stoi = [''a'' \<mapsto> 0, ''b'' \<mapsto> 1, ''c'' \<mapsto> 2, ''d'' \<mapsto> 3],
            unigrams = [(''a'', 4), (''b'', 3), (''c'', 2), (''d'', 1)],
            bigrams = [((''a'', ''b''), 1), ((''b'', ''c''), 1), ((''c'', ''d''), 1),
                       ((''d'', ''a''), 1)]\<rparr>"

text \<open>
  Two fixed special tokens, the ranks 1 and 2 from the most frequent end (ids 1 and 2),
  sequences of length 5 + 1, repeat counting and no self-repetition.
\<close>

definition args1 :: DataArgs where
  "args1 = \<lparr>args_k = 2, args_seq_length = 5, args_show_latents = False,
            args_fixed_special_toks = True, args_special_toks_offset = 1,
            args_output_counter = True, args_no_repeat = True\<rparr>"

text \<open>The dataset \<open>Dataset_init tape_gen args1 None False meta4\<close> constructs.\<close>

definition ds1 :: "real Dataset" where
  "ds1 = \<lparr>self_k = 2, self_seq_length = 5, self_show_latents = False,
           self_train_test = None, self_output_counter = True,
           self_no_repeat = True, self_bigram_outs = False,
           self_num_tokens = 4, self_tok_range = [0, 1, 2, 3],
           self_n_train_toks = 4,
           self_marginal = [2 / 5, 3 / 10, 1 / 5, 1 / 10],
           self_cond = [[0, 1, 0, 0], [0, 0, 1, 0], [0, 0, 0, 1], [1, 0, 0, 0]],
           self_idxs = Some [2, 1]\<rparr>"

text \<open>
  A vocabulary in which the two most frequent symbols have the same count, and one fixed
  special token, the most frequent.
\<close>

definition meta_tie :: "real Meta" where
  "meta_tie = \<lparr>vocab_size = 4,
               stoi = [''a'' \<mapsto> 0, ''b'' \<mapsto> 1, ''c'' \<mapsto> 2, ''d'' \<mapsto> 3],
               unigrams = [(''a'', 2), (''b'', 2), (''c'', 1), (''d'', 1)],
               bigrams = [((''a'', ''b''), 1), ((''b'', ''c''), 1), ((''c'', ''d''), 1),
                          ((''d'', ''a''), 1)]\<rparr>"

definition args_tie :: DataArgs where
  "args_tie = \<lparr>args_k = 1, args_seq_length = 5, args_show_latents = False,
               args_fixed_special_toks = True, args_special_toks_offset = 0,
               args_output_counter = True, args_no_repeat = False\<rparr>"

text \<open>
  The first two batches of two sequences that a stream over \<open>ds1\<close> with seed 7 yields
  when it draws from \<open>tape_gen\<close>.
\<close>

definition batch_a :: "nat array2d \<times> nat array2d \<times> int array2d" where
  "batch_a =
     (\<lparr>shape0 = 2, shape1 = 5, data = [1, 0, 2, 1, 0, 2, 3, 3, 0, 1]\<rparr>,
      \<lparr>shape0 = 2, shape1 = 5, data = [0, 2, 1, 0, 3, 3, 3, 0, 1, 2]\<rparr>,
      \<lparr>shape0 = 2, shape1 = 5, data = [1, 0, 1, 2, 0, 1, 0, 0, 0, 1]\<rparr>)"


section \<open>Facts about the primitives\<close>

declare gen_loop.simps [simp del]

lemma clamp_index_diff:
  assumes "0 \<le> n"
  shows "clamp_index N (a + n) - clamp_index N a \<le> nat n"
proof (cases "a < 0")
  case True
  show ?thesis
  proof (cases "a + n < 0")
    case True
    with \<open>a < 0\<close> assms show ?thesis by (simp add: clamp_index_def max_def; linarith?)
  next
    case False
    with \<open>a < 0\<close> assms show ?thesis by (simp add: clamp_index_def max_def min_def; linarith?)
  qed
next
  case False
  with assms show ?thesis by (simp add: clamp_index_def min_def; linarith?)
qed

lemma length_py_slice: "0 \<le> n \<Longrightarrow> length (py_slice xs a (a + n)) \<le> nat n"
  using clamp_index_diff[of n "length xs" a] by (simp add: py_slice_def Let_def)

lemma set_py_slice: "set (py_slice xs a b) \<subseteq> set xs"
  unfolding py_slice_def Let_def
  by (meson set_take_subset set_drop_subset subset_trans)

lemma distinct_py_slice: "distinct xs \<Longrightarrow> distinct (py_slice xs a b)"
  by (simp add: py_slice_def Let_def)

lemma py_slice_window:
  assumes "0 \<le> off" "0 \<le> n" "off + n \<le> int (length xs)"
  shows "py_slice xs (int (length xs) - off - n) (int (length xs) - off) =
         take (nat n) (drop (length xs - nat off - nat n) xs)"
proof -
  have a: "clamp_index (length xs) (int (length xs) - off - n) = length xs - nat off - nat n"
    using assms by (simp add: clamp_index_def min_def; linarith?)
  have b: "clamp_index (length xs) (int (length xs) - off) = length xs - nat off"
    using assms by (simp add: clamp_index_def min_def; linarith?)
  have c: "(length xs - nat off) - (length xs - nat off - nat n) = nat n"
    using assms by simp
  show ?thesis by (simp only: py_slice_def Let_def a b c)
qed

lemma rev_window:
  assumes "off + n \<le> length xs"
  shows "rev (take n (drop (length xs - off - n) xs)) = take n (drop off (rev xs))"
proof -
  have "rev (take n (drop (length xs - off - n) xs)) =
        drop off (take (off + n) (rev xs))"
    using assms by (simp add: rev_take rev_drop)
  also have "\<dots> = take n (drop off (rev xs))"
    by (simp add: drop_take)
  finally show ?thesis .
qed

lemma length_normalize: "length (normalize g v) = length v"
  by (simp add: normalize_def)

lemma list_index_less: "x \<in> set xs \<Longrightarrow> list_index xs x < length xs"
  by (induction xs) auto

lemma nth_list_index: "x \<in> set xs \<Longrightarrow> xs ! list_index xs x = x"
  by (induction xs) auto

lemma distinct_of_submset:
  "mset xs \<subseteq># mset ys \<Longrightarrow> distinct ys \<Longrightarrow> distinct xs"
proof (induction xs arbitrary: ys)
  case Nil
  then show ?case by simp
next
  case (Cons x xs)
  from Cons.prems(1) have x: "x \<in> set ys" and sub: "mset xs \<subseteq># mset (remove1 x ys)"
    by (simp_all add: insert_subset_eq_iff)
  from Cons.prems(2) have d: "distinct (remove1 x ys)" by simp
  from Cons.IH[OF sub d] have "distinct xs" .
  moreover have "x \<notin> set xs"
  proof -
    from set_mset_mono[OF sub] have "set xs \<subseteq> set (remove1 x ys)"
      by (simp only: set_mset_mset)
    with Cons.prems(2) show ?thesis by (auto simp: set_remove1_eq)
  qed
  ultimately show ?case by simp
qed

lemma map_err_all2: "map_err f xs = Inr ys \<Longrightarrow> list_all2 (\<lambda>x y. f x = Inr y) xs ys"
  by (induction xs arbitrary: ys) (auto split: sum.splits)

lemma filter_nth_append:
  "m \<le> length xs \<Longrightarrow>
   filter (\<lambda>i. (xs @ ys) ! i = t) [s0..<m] = filter (\<lambda>i. xs ! i = t) [s0..<m]"
  by (rule filter_cong) (auto simp: nth_append)

lemma length_concat_chunks:
  "\<forall>k<b. length (f k) = c \<Longrightarrow> length (concat (map f [0..<b])) = b * c"
  by (induction b) simp_all

lemma concat_chunk:
  assumes "\<forall>k<b. length (f k) = c" "i < b"
  shows "take c (drop (i * c) (concat (map f [0..<b]))) = f i"
  using assms
proof (induction b)
  case 0
  then show ?case by simp
next
  case (Suc b)
  let ?A = "concat (map f [0..<b])"
  from Suc.prems(1) have all: "\<forall>k<b. length (f k) = c" by simp
  have lA: "length ?A = b * c" using all by (rule length_concat_chunks)
  from Suc.prems(1) have lb: "length (f b) = c" by simp
  have cc: "concat (map f [0..<Suc b]) = ?A @ f b" by simp
  show ?case
  proof (cases "i < b")
    case True
    then have "Suc i * c \<le> b * c" by (intro mult_le_mono1) simp
    then have le: "i * c + c \<le> b * c" by simp
    from True have "i * c \<le> b * c" by (intro mult_le_mono1) simp
    then have d: "drop (i * c) (?A @ f b) = drop (i * c) ?A @ f b"
      by (simp add: lA)
    from le have "c \<le> length (drop (i * c) ?A)" by (simp add: lA)
    then have "take c (drop (i * c) ?A @ f b) = take c (drop (i * c) ?A)" by simp
    with Suc.IH[OF all True] d show ?thesis by (simp only: cc)
  next
    case False
    with Suc.prems(2) have "i = b" by simp
    then show ?thesis by (simp add: lA lb)
  qed
qed

lemma reshape_ok:
  assumes "reshape xs b c = Inr a" "0 \<le> b" "0 \<le> c"
  shows "shape0 a = nat b" "shape1 a = nat c" "data a = xs" "length xs = nat b * nat c"
proof -
  from assms have n: "int (length xs) = b * c"
    and a: "a = \<lparr>shape0 = nat b, shape1 = nat c, data = xs\<rparr>"
    by (auto simp: reshape_def Let_def split: if_splits)
  from a show "shape0 a = nat b" "shape1 a = nat c" "data a = xs" by simp_all
  from n assms(2,3) show "length xs = nat b * nat c"
    by (metis nat_int nat_mult_distrib)
qed

lemma length_row:
  assumes "length (data a) = shape0 a * shape1 a" "i < shape0 a"
  shows "length (row a i) = shape1 a"
proof -
  from assms(2) have "Suc i * shape1 a \<le> shape0 a * shape1 a"
    by (intro mult_le_mono1) simp
  then have "i * shape1 a + shape1 a \<le> length (data a)" by (simp add: assms(1))
  then show ?thesis by (simp add: row_def)
qed

lemma row_drop_first_col:
  assumes "length (data a) = shape0 a * shape1 a" "i < shape0 a"
  shows "row (drop_first_col a) i = tl (row a i)"
proof -
  have "\<forall>k<shape0 a. length (tl (row a k)) = shape1 a - 1"
    using length_row[OF assms(1)] by simp
  from concat_chunk[OF this assms(2)] show ?thesis
    unfolding row_def[of "drop_first_col a" i] by (simp add: drop_first_col_def)
qed

lemma row_drop_last_col:
  assumes "length (data a) = shape0 a * shape1 a" "i < shape0 a"
  shows "row (drop_last_col a) i = butlast (row a i)"
proof -
  have "\<forall>k<shape0 a. length (butlast (row a k)) = shape1 a - 1"
    using length_row[OF assms(1)] by simp
  from concat_chunk[OF this assms(2)] show ?thesis
    unfolding row_def[of "drop_last_col a" i] by (simp add: drop_last_col_def)
qed

lemma shifted_columns:
  assumes l: "length (data a) = shape0 a * shape1 a" and i: "i < shape0 a"
    and j: "Suc j < shape1 a - 1"
  shows "cell (drop_first_col a) i j = cell (drop_last_col a) i (Suc j)"
proof -
  from length_row[OF l i] j have "Suc j < length (butlast (row a i))" "j < length (tl (row a i))"
    by simp_all
  then show ?thesis
    by (simp add: cell_def row_drop_first_col[OF l i] row_drop_last_col[OF l i]
        nth_tl nth_butlast)
qed

section \<open>Facts about NumPy\<close>

lemma mset_argsort: "argsort_ok g \<Longrightarrow> mset (np_argsort g a) = mset [0..<length a]"
  unfolding argsort_ok_def by blast

lemma set_argsort:
  assumes "argsort_ok g"
  shows "set (np_argsort g a) = {0..<length a}"
proof -
  have "set_mset (mset (np_argsort g a)) = set_mset (mset [0..<length a])"
    by (simp only: mset_argsort[OF assms])
  then show ?thesis by simp
qed

lemma distinct_argsort:
  assumes "argsort_ok g"
  shows "distinct (np_argsort g a)"
  using mset_eq_imp_distinct_iff[OF mset_argsort[OF assms, of a]] by simp

lemma length_argsort:
  assumes "argsort_ok g"
  shows "length (np_argsort g a) = length a"
  using mset_eq_length[OF mset_argsort[OF assms, of a]] by simp

lemma sorted_argsort:
  "argsort_ok g \<Longrightarrow> sorted_wrt (\<lambda>i j. np_less_eq g (a ! i) (a ! j)) (np_argsort g a)"
  unfolding argsort_ok_def by blast

lemma stable_argsort_ok:
  "mset (stable_argsort a) = mset [0..<length a]"
  "sorted_wrt (\<lambda>i j. a ! i \<le> a ! j) (stable_argsort a)"
proof -
  show "mset (stable_argsort a) = mset [0..<length a]"
    by (simp add: stable_argsort_def)
  have "sorted (map (\<lambda>i. a ! i) (sort_key (\<lambda>i. a ! i) [0..<length a]))"
    by simp
  then show "sorted_wrt (\<lambda>i j. a ! i \<le> a ! j) (stable_argsort a)"
    by (simp add: stable_argsort_def sorted_map)
qed

lemma reverse_ties_argsort_ok:
  "mset (reverse_ties_argsort a) = mset [0..<length a]"
  "sorted_wrt (\<lambda>i j. a ! i \<le> a ! j) (reverse_ties_argsort a)"
proof -
  show "mset (reverse_ties_argsort a) = mset [0..<length a]"
    by (simp add: reverse_ties_argsort_def)
  have "sorted (map (\<lambda>i. - (a ! i)) (sort_key (\<lambda>i. - (a ! i)) [0..<length a]))"
    by simp
  then have "sorted_wrt (\<lambda>i j. a ! j \<le> a ! i) (sort_key (\<lambda>i. - (a ! i)) [0..<length a])"
    by (simp add: sorted_map)
  then show "sorted_wrt (\<lambda>i j. a ! i \<le> a ! j) (reverse_ties_argsort a)"
    by (simp add: reverse_ties_argsort_def sorted_wrt_rev)
qed

lemma tape_gen_argsort_ok: "argsort_ok tape_gen"
  by (simp add: argsort_ok_def tape_gen_def stable_argsort_ok)

lemma tape_gen_ties_argsort_ok: "argsort_ok tape_gen_ties"
  by (simp add: argsort_ok_def tape_gen_ties_def tape_gen_def reverse_ties_argsort_ok)

lemma generator_ok_choice:
  "generator_ok g \<Longrightarrow> rng_choice g r a p = Inr (x, r') \<Longrightarrow> x \<in> set a"
  unfolding generator_ok_def by blast

lemma generator_ok_norepl:
  "generator_ok g \<Longrightarrow> rng_choice_norepl g r a p n = Inr (xs, r') \<Longrightarrow>
   int (length xs) = n \<and> mset xs \<subseteq># mset a"
  unfolding generator_ok_def by blast

lemma tape_pick_props:
  "tape_pick n t a = Inr (xs, t') \<Longrightarrow> length xs = n \<and> mset xs \<subseteq># mset a"
proof (induction n arbitrary: t a xs)
  case 0
  then show ?case by simp
next
  case (Suc n)
  from Suc.prems have ne: "a \<noteq> []" by (auto split: if_splits)
  define x where "x = a ! (tape_head t mod length a)"
  from ne have xa: "x \<in> set a" by (simp add: x_def)
  from Suc.prems ne obtain ys where
    t: "tape_pick n (tl t) (remove1 x a) = Inr (ys, t')" and xs: "xs = x # ys"
    by (auto simp: Let_def x_def split: sum.splits)
  from Suc.IH[OF t] have l: "length ys = n" and sub: "mset ys \<subseteq># mset (remove1 x a)"
    by simp_all
  from sub xa have "mset (x # ys) \<subseteq># mset a"
    by (simp add: insert_subset_eq_iff)
  with l xs show ?case by simp
qed

lemma tape_gen_ok: "generator_ok tape_gen"
  unfolding generator_ok_def
proof (intro conjI allI impI)
  fix r a p x r'
  assume "rng_choice tape_gen r a p = Inr (x, r')"
  then show "x \<in> set a"
    by (auto simp: tape_gen_def tape_choice_def split: if_splits)
next
  fix r a p n xs r'
  assume "rng_choice_norepl tape_gen r a p n = Inr (xs, r')"
  then have "0 \<le> n" and "tape_pick (nat n) r a = Inr (xs, r')"
    by (auto simp: tape_gen_def tape_choice_norepl_def split: if_splits)
  with tape_pick_props[of "nat n" r a xs r']
  show "int (length xs) = n" "mset xs \<subseteq># mset a" by auto
qed

section \<open>Facts about the constructor\<close>

lemma length_set_unigrams: "set_unigrams st us m = Inr m' \<Longrightarrow> length m' = length m"
  by (induction st us m rule: set_unigrams.induct) (auto split: option.splits if_splits)

lemma length_add_bigrams: "add_bigrams g st bs c = Inr c' \<Longrightarrow> length c' = length c"
  by (induction g st bs c rule: add_bigrams.induct) (auto split: option.splits if_splits)

lemma set_unigrams_not_assert: "set_unigrams st us m \<noteq> Inl AssertionError"
  by (induction st us m rule: set_unigrams.induct) (auto split: option.splits)

lemma add_bigrams_not_assert: "add_bigrams g st bs c \<noteq> Inl AssertionError"
  by (induction g st bs c rule: add_bigrams.induct) (auto split: option.splits)

lemma Dataset_init_fields:
  assumes "Dataset_init g args train_test bigram_outs meta = Inr ds"
  shows "self_k ds = args_k args"
    and "self_seq_length ds = args_seq_length args"
    and "self_show_latents ds = args_show_latents args"
    and "self_train_test ds = train_test"
    and "self_output_counter ds = args_output_counter args"
    and "self_no_repeat ds = args_no_repeat args"
    and "self_bigram_outs ds = bigram_outs"
    and "self_num_tokens ds = vocab_size meta"
    and "self_tok_range ds = [0..<vocab_size meta]"
    and "self_n_train_toks ds = (if train_test \<noteq> None then (3 * vocab_size meta) div 4 else vocab_size meta)"
    and "length (self_marginal ds) = vocab_size meta"
    and "length (self_cond ds) = vocab_size meta"
    and "self_idxs ds =
           (if args_fixed_special_toks args
            then Some (py_slice (np_argsort g (self_marginal ds))
                         (int (vocab_size meta) - args_special_toks_offset args - args_k args)
                         (int (vocab_size meta) - args_special_toks_offset args))
            else None)"
  using assms
  by (auto simp: Dataset_init_def Let_def length_normalize
      split: sum.splits if_splits dest: length_set_unigrams length_add_bigrams)

section \<open>Special tokens, pools and responses\<close>

lemma choose_uniform_all2:
  "generator_ok g \<Longrightarrow> choose_uniform g r pools = Inr (xs, r') \<Longrightarrow>
   list_all2 (\<lambda>x pool. x \<in> set pool) xs pools"
proof (induction pools arbitrary: r xs)
  case Nil
  then show ?case by simp
next
  case (Cons pool rest)
  from Cons.prems(2) obtain x r1 ys where
    c: "rng_choice g r pool None = Inr (x, r1)" and
    t: "choose_uniform g r1 rest = Inr (ys, r')" and xs: "xs = x # ys"
    by (auto split: sum.splits)
  from Cons.prems(1) c have "x \<in> set pool" by (rule generator_ok_choice)
  with Cons.IH[OF Cons.prems(1) t] xs show ?case by simp
qed

lemma choose_bigram_all2:
  "generator_ok g \<Longrightarrow> choose_bigram g ds r ps = Inr (xs, r') \<Longrightarrow>
   list_all2 (\<lambda>x p. x \<in> set (fst p)) xs ps"
proof (induction ps arbitrary: r xs)
  case Nil
  then show ?case by simp
next
  case (Cons p rest)
  obtain pool idx where p: "p = (pool, idx)" by (cases p)
  from Cons.prems(2) p obtain w x r1 ys where
    c: "rng_choice g r pool (Some w) = Inr (x, r1)" and
    t: "choose_bigram g ds r1 rest = Inr (ys, r')" and xs: "xs = x # ys"
    by (auto split: sum.splits)
  from Cons.prems(1) c have "x \<in> set pool" by (rule generator_ok_choice)
  with Cons.IH[OF Cons.prems(1) t] xs p show ?case by simp
qed

lemma make_pools_nth:
  assumes "make_pools ds idxs = Inr pools"
  shows "length pools = length idxs"
    and "i < length idxs \<Longrightarrow>
         pools ! i = (if self_no_repeat ds then remove1 (idxs ! i) (self_tok_range ds)
                      else self_tok_range ds)"
    and "i < length idxs \<Longrightarrow> self_no_repeat ds \<Longrightarrow> idxs ! i \<in> set (self_tok_range ds)"
proof -
  show l: "length pools = length idxs"
    using assms
    by (auto simp: make_pools_def split: if_splits dest!: map_err_all2 list_all2_lengthD)
  show "pools ! i = (if self_no_repeat ds then remove1 (idxs ! i) (self_tok_range ds)
                      else self_tok_range ds)" if "i < length idxs"
  proof (cases "self_no_repeat ds")
    case True
    with assms have "list_all2 (\<lambda>x y. list_remove x (self_tok_range ds) = Inr y) idxs pools"
      by (auto simp: make_pools_def dest: map_err_all2)
    from list_all2_nthD[OF this that] True show ?thesis
      by (auto simp: list_remove_def split: if_splits)
  next
    case False
    with assms that show ?thesis by (auto simp: make_pools_def)
  qed
  show "idxs ! i \<in> set (self_tok_range ds)" if "i < length idxs" "self_no_repeat ds"
  proof -
    from assms that have "list_all2 (\<lambda>x y. list_remove x (self_tok_range ds) = Inr y) idxs pools"
      by (auto simp: make_pools_def dest: map_err_all2)
    from list_all2_nthD[OF this that(1)] show ?thesis
      by (auto simp: list_remove_def split: if_splits)
  qed
qed

lemma select_outs_nth:
  assumes ok: "generator_ok g"
    and len: "length pools = length idxs"
    and sel: "select_outs g ds r idxs pools = Inr (outs, r')"
  shows "length outs = length idxs"
    and "i < length idxs \<Longrightarrow>
         outs ! i \<in> set (case self_train_test ds of
                           None \<Rightarrow> pools ! i
                         | Some tt \<Rightarrow> if tt = ''train'' then take (self_n_train_toks ds) (pools ! i)
                                      else drop (self_n_train_toks ds) (pools ! i))"
proof -
  let ?part = "\<lambda>pool. case self_train_test ds of
                           None \<Rightarrow> pool
                         | Some tt \<Rightarrow> if tt = ''train'' then take (self_n_train_toks ds) pool
                                      else drop (self_n_train_toks ds) pool"
  have a: "list_all2 (\<lambda>x pool. x \<in> set (?part pool)) outs pools"
  proof (cases "self_train_test ds")
    case None
    show ?thesis
    proof (cases "self_bigram_outs ds")
      case True
      with None sel have "choose_bigram g ds r (zip pools idxs) = Inr (outs, r')"
        by (simp add: select_outs_def)
      from choose_bigram_all2[OF ok this] len None show ?thesis
        by (auto simp: list_all2_conv_all_nth)
    next
      case False
      with None sel have "choose_uniform g r pools = Inr (outs, r')"
        by (simp add: select_outs_def)
      from choose_uniform_all2[OF ok this] None show ?thesis by simp
    qed
  next
    case (Some tt)
    with sel consider
      (train) "tt = ''train''"
        "choose_uniform g r (map (\<lambda>pool. take (self_n_train_toks ds) pool) pools) = Inr (outs, r')"
      | (test) "tt \<noteq> ''train''"
        "choose_uniform g r (map (\<lambda>pool. drop (self_n_train_toks ds) pool) pools) = Inr (outs, r')"
      by (auto simp: select_outs_def split: if_splits)
    then show ?thesis
    proof cases
      case train
      from choose_uniform_all2[OF ok train(2)] Some train(1) show ?thesis
        by (auto simp: list_all2_conv_all_nth)
    next
      case test
      from choose_uniform_all2[OF ok test(2)] Some test(1) show ?thesis
        by (auto simp: list_all2_conv_all_nth)
    qed
  qed
  from a len show "length outs = length idxs" by (auto dest: list_all2_lengthD)
  from a len show "outs ! i \<in> set (?part (pools ! i))" if "i < length idxs"
    using that by (auto simp: list_all2_conv_all_nth)
qed

lemma select_outs_range:
  assumes ok: "generator_ok g"
    and p: "make_pools ds idxs = Inr pools"
    and o: "select_outs g ds r idxs pools = Inr (outs, r')"
  shows "set outs \<subseteq> set (self_tok_range ds)"
proof
  fix x assume "x \<in> set outs"
  then obtain i where i: "i < length outs" and x: "x = outs ! i"
    by (auto simp: in_set_conv_nth)
  note len = make_pools_nth(1)[OF p]
  note so = select_outs_nth[OF ok len o]
  from i so(1) have il: "i < length idxs" by simp
  from so(2)[OF il] have "outs ! i \<in> set (pools ! i)"
    by (auto split: option.splits if_splits dest: in_set_takeD in_set_dropD)
  with make_pools_nth(2)[OF p il] have "outs ! i \<in> set (self_tok_range ds)"
    using set_remove1_subset[of "idxs ! i" "self_tok_range ds"]
    by (auto split: if_splits)
  with x show "x \<in> set (self_tok_range ds)" by simp
qed

lemma fixed_idxs:
  assumes init: "Dataset_init g args train_test bigram_outs meta = Inr ds"
    and sel: "select_idxs g ds r = Inr (idxs, r1)"
    and fixed: "args_fixed_special_toks args"
  shows "self_idxs ds = Some idxs"
    and "idxs = py_slice (np_argsort g (self_marginal ds))
        (int (vocab_size meta) - args_special_toks_offset args - args_k args)
        (int (vocab_size meta) - args_special_toks_offset args)"
  using Dataset_init_fields(13)[OF init] sel fixed by (auto simp: select_idxs_def)

lemma random_idxs:
  assumes init: "Dataset_init g args train_test bigram_outs meta = Inr ds"
    and ok: "generator_ok g"
    and sel: "select_idxs g ds r = Inr (idxs, r1)"
    and rand: "\<not> args_fixed_special_toks args"
  shows "int (length idxs) = args_k args"
    and "mset idxs \<subseteq># mset [0..<vocab_size meta]"
proof -
  note f = Dataset_init_fields[OF init]
  from rand sel f(13) have
    "rng_choice_norepl g r (self_tok_range ds) (self_marginal ds) (self_k ds) = Inr (idxs, r1)"
    by (simp add: select_idxs_def)
  from generator_ok_norepl[OF ok this] f(1) f(9)
  show "int (length idxs) = args_k args" "mset idxs \<subseteq># mset [0..<vocab_size meta]"
    by simp_all
qed

lemma select_idxs_length:
  assumes init: "Dataset_init g args train_test bigram_outs meta = Inr ds"
    and ok: "generator_ok g"
    and sel: "select_idxs g ds r = Inr (idxs, r1)"
    and k: "0 \<le> args_k args"
  shows "int (length idxs) \<le> args_k args"
proof (cases "args_fixed_special_toks args")
  case True
  have "int (vocab_size meta) - args_special_toks_offset args =
    (int (vocab_size meta) - args_special_toks_offset args - args_k args) + args_k args"
    by simp
  with fixed_idxs(2)[OF init sel True]
  have "idxs = py_slice (np_argsort g (self_marginal ds))
      (int (vocab_size meta) - args_special_toks_offset args - args_k args)
      ((int (vocab_size meta) - args_special_toks_offset args - args_k args) + args_k args)"
    by simp
  then have "length idxs \<le> nat (args_k args)"
    using length_py_slice[OF k] by (simp only:)
  with k show ?thesis by linarith
next
  case False
  from random_idxs(1)[OF init ok sel False] show ?thesis by simp
qed

lemma select_idxs_props:
  assumes init: "Dataset_init g args train_test bigram_outs meta = Inr ds"
    and ok: "generator_ok g"
    and aok: "argsort_ok g"
    and sel: "select_idxs g ds r = Inr (idxs, r1)"
  shows "set idxs \<subseteq> {0..<vocab_size meta}"
    and "distinct idxs"
proof -
  note f = Dataset_init_fields[OF init]
  show "set idxs \<subseteq> {0..<vocab_size meta}"
  proof (cases "args_fixed_special_toks args")
    case True
    from fixed_idxs(2)[OF init sel True]
      set_py_slice[of "np_argsort g (self_marginal ds)"] f(11)
    show ?thesis by (auto simp: set_argsort[OF aok])
  next
    case False
    from set_mset_mono[OF random_idxs(2)[OF init ok sel False]] show ?thesis by auto
  qed
  show "distinct idxs"
  proof (cases "args_fixed_special_toks args")
    case True
    from fixed_idxs(2)[OF init sel True] show ?thesis
      by (simp add: distinct_py_slice distinct_argsort[OF aok])
  next
    case False
    from distinct_of_submset[OF random_idxs(2)[OF init ok sel False]] show ?thesis by simp
  qed
qed

section \<open>The loop and the sequence it builds\<close>

text \<open>A property every iteration preserves holds when the loop ends.\<close>

lemma gen_loop_inv_aux:
  assumes run: "gen_loop g ds idxs outs st = Inr st'"
    and init: "I st"
    and step: "\<forall>s s'. I s \<longrightarrow> int (length (st_seq s)) < self_seq_length ds + 1 \<longrightarrow>
           loop_body g ds idxs outs s = Inr s' \<longrightarrow> I s'"
  shows "I st' \<and> \<not> int (length (st_seq st')) < self_seq_length ds + 1"
  using run init step
proof (induction g ds idxs outs st rule: gen_loop.induct)
  case (1 g ds idxs outs st)
  show ?case
  proof (cases "int (length (st_seq st)) < self_seq_length ds + 1")
    case True
    with "1.prems"(1) obtain s1 where b: "loop_body g ds idxs outs st = Inr s1"
      and l: "gen_loop g ds idxs outs s1 = Inr st'"
      by (subst (asm) gen_loop.simps) (auto split: sum.splits)
    from "1.prems"(2,3) True b have "I s1" by blast
    from "1.IH"[OF True b l this "1.prems"(3)] show ?thesis .
  next
    case False
    with "1.prems"(1) have "st' = st" by (subst (asm) gen_loop.simps) simp
    with False "1.prems"(2) show ?thesis by simp
  qed
qed

lemma loop_body_cases:
  assumes "loop_body g ds idxs outs s = Inr s'"
  obtains (fire) "last (st_seq s) \<in> set idxs"
      "list_index idxs (last (st_seq s)) < length outs"
      "st_seq s' = st_seq s @ [outs ! list_index idxs (last (st_seq s))]"
      "st_outputs_seq s' = st_outputs_seq s @
         [if self_output_counter ds then dict_get (st_cnts s) (last (st_seq s)) 0 + 1 else 1]"
      "st_cnts s' = (if self_output_counter ds
         then (st_cnts s)(last (st_seq s) \<mapsto> dict_get (st_cnts s) (last (st_seq s)) 0 + 1)
         else st_cnts s)"
      "st_rng s' = st_rng s"
  | (background) x r' where "last (st_seq s) \<notin> set idxs"
      "rng_choice g (st_rng s) (self_tok_range ds) (Some (self_cond ds ! last (st_seq s))) = Inr (x, r')"
      "st_seq s' = st_seq s @ [x]"
      "st_outputs_seq s' = st_outputs_seq s @ [0]"
      "st_cnts s' = st_cnts s"
      "st_rng s' = r'"
  using assms
  by (auto simp: loop_body_def Let_def split: if_splits sum.splits prod.splits)

lemma loop_body_append:
  "loop_body g ds idxs outs s = Inr s' \<Longrightarrow>
   \<exists>y a. st_seq s' = st_seq s @ [y] \<and> st_outputs_seq s' = st_outputs_seq s @ [a]"
  by (erule loop_body_cases) blast+

lemma position_ok_append:
  assumes "Suc j < length seq" "length os + 1 = length seq"
  shows "position_ok ds idxs outs s0 (seq @ [y]) (os @ [a]) j =
         position_ok ds idxs outs s0 seq os j"
proof -
  have n: "(seq @ [y]) ! j = seq ! j" "(seq @ [y]) ! Suc j = seq ! Suc j"
    "(os @ [a]) ! j = os ! j"
    using assms by (simp_all add: nth_append)
  have f: "filter (\<lambda>i. (seq @ [y]) ! i = seq ! j) [s0..<Suc j] =
           filter (\<lambda>i. seq ! i = seq ! j) [s0..<Suc j]"
    using assms by (intro filter_nth_append) simp
  show ?thesis by (simp only: position_ok_def n f)
qed

lemma position_ok_new:
  assumes B: "s0 < length seq" and A: "length os + 1 = length seq"
  shows "position_ok ds idxs outs s0 (seq @ [y]) (os @ [a]) (length seq - 1) =
     (if last seq \<in> set idxs
      then y = outs ! list_index idxs (last seq) \<and>
           a = (if self_output_counter ds
                then int (length (filter (\<lambda>i. seq ! i = last seq) [s0..<length seq - 1])) + 1
                else 1)
      else a = 0)"
proof -
  let ?m = "length seq - 1"
  from B have ne: "seq \<noteq> []" by auto
  from B have s: "Suc ?m = length seq" by simp
  from ne have n1: "(seq @ [y]) ! ?m = last seq"
    by (simp add: nth_append last_conv_nth)
  have n2: "(seq @ [y]) ! Suc ?m = y" by (simp only: s nth_append_length)
  from A have "?m = length os" by simp
  then have n3: "(os @ [a]) ! ?m = a" by (simp only: nth_append_length)
  from B have le: "s0 \<le> ?m" by simp
  have "filter (\<lambda>i. (seq @ [y]) ! i = last seq) [s0..<Suc ?m] =
        filter (\<lambda>i. (seq @ [y]) ! i = last seq) [s0..<?m] @ [?m]"
    using le n1 by simp
  also have "filter (\<lambda>i. (seq @ [y]) ! i = last seq) [s0..<?m] =
        filter (\<lambda>i. seq ! i = last seq) [s0..<?m]"
    by (intro filter_nth_append) simp
  finally have f: "int (length (filter (\<lambda>i. (seq @ [y]) ! i = last seq) [s0..<Suc ?m])) =
       int (length (filter (\<lambda>i. seq ! i = last seq) [s0..<?m])) + 1"
    by simp
  show ?thesis by (simp only: position_ok_def n1 n2 n3 f)
qed

lemma position_ok_ann:
  "j < length os \<Longrightarrow>
   position_ok ds idxs outs s0 seq (os @ [a]) j = position_ok ds idxs outs s0 seq os j"
  by (simp add: position_ok_def nth_append)

lemma count_append_last:
  assumes B: "s0 < length seq"
  shows "int (length (filter (\<lambda>i. (seq @ [y]) ! i = t) [s0..<length (seq @ [y]) - 1])) =
         int (length (filter (\<lambda>i. seq ! i = t) [s0..<length seq - 1])) +
           (if last seq = t then 1 else 0)"
proof -
  let ?m = "length seq - 1"
  from B have e: "length (seq @ [y]) - 1 = Suc ?m" by simp
  from B have le: "s0 \<le> ?m" by simp
  from B have ne: "seq \<noteq> []" by auto
  have l: "last seq = seq ! ?m" using ne by (simp add: last_conv_nth)
  have u: "[s0..<Suc ?m] = [s0..<?m] @ [?m]" using le by (rule upt_Suc_append)
  have f: "filter (\<lambda>i. (seq @ [y]) ! i = t) [s0..<Suc ?m] =
        filter (\<lambda>i. seq ! i = t) [s0..<Suc ?m]"
    by (rule filter_nth_append) (use B in simp)
  have "int (length (filter (\<lambda>i. (seq @ [y]) ! i = t) [s0..<length (seq @ [y]) - 1])) =
        int (length (filter (\<lambda>i. (seq @ [y]) ! i = t) [s0..<Suc ?m]))"
    by (simp only: e)
  also have "\<dots> = int (length (filter (\<lambda>i. seq ! i = t) [s0..<Suc ?m]))"
    by (simp only: f)
  also have "\<dots> = int (length (filter (\<lambda>i. seq ! i = t) ([s0..<?m] @ [?m])))"
    by (simp only: u)
  also have "\<dots> = int (length (filter (\<lambda>i. seq ! i = t) [s0..<?m])) +
      (if seq ! ?m = t then 1 else 0)"
    by simp
  finally show ?thesis by (simp only: l)
qed

lemma count_self_pos:
  "s0 \<le> j \<Longrightarrow> 0 < length (filter (\<lambda>i. seq ! i = seq ! j) [s0..<Suc j])"
  by (simp add: filter_empty_conv length_greater_0_conv del: upt_Suc) (use atLeastLessThan_iff in fastforce)

lemma loop_body_trace_inv:
  assumes inv: "trace_inv ds idxs outs s0 s" and body: "loop_body g ds idxs outs s = Inr s'"
  shows "trace_inv ds idxs outs s0 s'"
proof -
  let ?seq = "st_seq s" and ?os = "st_outputs_seq s"
  let ?m = "length ?seq - 1"
  from inv have B: "s0 < length ?seq" and A: "length ?os + 1 = length ?seq"
    unfolding trace_inv_def by blast+
  from inv have C: "position_ok ds idxs outs s0 ?seq ?os j"
    if "s0 \<le> j" "Suc j < length ?seq" for j
    using that unfolding trace_inv_def by blast
  from inv have D: "dict_get (st_cnts s) t 0 =
      int (length (filter (\<lambda>i. ?seq ! i = t) [s0..<?m]))"
    if "self_output_counter ds" "t \<in> set idxs" for t
    using that unfolding trace_inv_def by blast
  have ext: "position_ok ds idxs outs s0 (?seq @ [y]) (?os @ [a]) j"
    if new: "position_ok ds idxs outs s0 (?seq @ [y]) (?os @ [a]) ?m"
      and j: "s0 \<le> j" "Suc j < length (?seq @ [y])" for y a j
  proof (cases "Suc j < length ?seq")
    case True
    from C[OF j(1) True] show ?thesis
      by (simp only: position_ok_append[OF True A])
  next
    case False
    with j(2) have "j = ?m" by simp
    with new show ?thesis by (simp only:)
  qed
  from body show ?thesis
  proof (cases rule: loop_body_cases)
    case fire
    let ?y = "outs ! list_index idxs (last ?seq)"
    let ?a = "if self_output_counter ds then dict_get (st_cnts s) (last ?seq) 0 + 1 else 1"
    have new: "position_ok ds idxs outs s0 (?seq @ [?y]) (?os @ [?a]) ?m"
    proof (cases "self_output_counter ds")
      case True
      show ?thesis unfolding position_ok_new[OF B A]
        using True fire(1) D[OF True fire(1)] by simp
    next
      case False
      show ?thesis unfolding position_ok_new[OF B A]
        using False fire(1) by simp
    qed
    have cnts: "dict_get (st_cnts s') t 0 =
           int (length (filter (\<lambda>i. st_seq s' ! i = t) [s0..<length (st_seq s') - 1]))"
      if c: "self_output_counter ds" and t: "t \<in> set idxs" for t
    proof -
      have r: "int (length (filter (\<lambda>i. st_seq s' ! i = t) [s0..<length (st_seq s') - 1])) =
          int (length (filter (\<lambda>i. ?seq ! i = t) [s0..<?m])) +
            (if last ?seq = t then 1 else 0)"
        unfolding fire(3) by (rule count_append_last[OF B])
      have l: "dict_get (st_cnts s') t 0 =
          dict_get (st_cnts s) t 0 + (if last ?seq = t then 1 else 0)"
        using c by (simp add: fire(5) dict_get_def)
      show ?thesis unfolding r l using D[OF c t] by simp
    qed
    show ?thesis
      unfolding trace_inv_def
    proof (intro conjI allI impI ballI)
      show "s0 < length (st_seq s')" using B by (simp add: fire(3))
      show "length (st_outputs_seq s') + 1 = length (st_seq s')"
        using A by (simp add: fire(3,4))
      show "position_ok ds idxs outs s0 (st_seq s') (st_outputs_seq s') j"
        if "s0 \<le> j \<and> Suc j < length (st_seq s')" for j
        using ext[OF new, of j] that by (simp add: fire(3,4))
      show "dict_get (st_cnts s') t 0 =
           int (length (filter (\<lambda>i. st_seq s' ! i = t) [s0..<length (st_seq s') - 1]))"
        if "self_output_counter ds" "t \<in> set idxs" for t
        using that by (rule cnts)
    qed
  next
    case (background x r')
    have new: "position_ok ds idxs outs s0 (?seq @ [x]) (?os @ [0]) ?m"
      unfolding position_ok_new[OF B A] using background(1) by simp
    have cnts: "dict_get (st_cnts s') t 0 =
           int (length (filter (\<lambda>i. st_seq s' ! i = t) [s0..<length (st_seq s') - 1]))"
      if c: "self_output_counter ds" and t: "t \<in> set idxs" for t
    proof -
      from t background(1) have n: "last ?seq \<noteq> t" by auto
      have r: "int (length (filter (\<lambda>i. st_seq s' ! i = t) [s0..<length (st_seq s') - 1])) =
          int (length (filter (\<lambda>i. ?seq ! i = t) [s0..<?m])) +
            (if last ?seq = t then 1 else 0)"
        unfolding background(3) by (rule count_append_last[OF B])
      show ?thesis unfolding r background(5) using D[OF c t] n by simp
    qed
    show ?thesis
      unfolding trace_inv_def
    proof (intro conjI allI impI ballI)
      show "s0 < length (st_seq s')" using B by (simp add: background(3))
      show "length (st_outputs_seq s') + 1 = length (st_seq s')"
        using A by (simp add: background(3,4))
      show "position_ok ds idxs outs s0 (st_seq s') (st_outputs_seq s') j"
        if "s0 \<le> j \<and> Suc j < length (st_seq s')" for j
        using ext[OF new, of j] that by (simp add: background(3,4))
      show "dict_get (st_cnts s') t 0 =
           int (length (filter (\<lambda>i. st_seq s' ! i = t) [s0..<length (st_seq s') - 1]))"
        if "self_output_counter ds" "t \<in> set idxs" for t
        using that by (rule cnts)
    qed
  qed
qed

lemma trace_inv_init:
  assumes "length (st_seq st) = Suc s0" "length (st_outputs_seq st) = s0"
    "st_cnts st = Map.empty"
  shows "trace_inv ds idxs outs s0 st"
  using assms by (auto simp: trace_inv_def dict_get_def)

lemma gen_loop_shape:
  assumes run: "gen_loop g ds idxs outs st = Inr st'"
    and i1: "length (st_seq st) = Suc s0"
    and i2: "length (st_outputs_seq st) = s0"
    and i3: "st_cnts st = Map.empty"
  shows "trace_inv ds idxs outs s0 st'"
    and "take (Suc s0) (st_seq st') = st_seq st"
    and "take s0 (st_outputs_seq st') = st_outputs_seq st"
    and "int (length (st_seq st')) = max (int (Suc s0)) (self_seq_length ds + 1)"
proof -
  let ?L = "self_seq_length ds + 1"
  let ?I = "\<lambda>s. trace_inv ds idxs outs s0 s \<and>
                 take (Suc s0) (st_seq s) = st_seq st \<and>
                 take s0 (st_outputs_seq s) = st_outputs_seq st \<and>
                 Suc s0 \<le> length (st_seq s) \<and> s0 \<le> length (st_outputs_seq s) \<and>
                 int (length (st_seq s)) \<le> max (int (Suc s0)) ?L"
  have init: "?I st"
    using trace_inv_init[OF i1 i2 i3] i1 i2 by simp
  have step: "?I s'" if I: "?I s" and c: "int (length (st_seq s)) < ?L"
    and b: "loop_body g ds idxs outs s = Inr s'" for s s'
  proof -
    from loop_body_append[OF b] obtain y a where
      e: "st_seq s' = st_seq s @ [y]" "st_outputs_seq s' = st_outputs_seq s @ [a]"
      by blast
    from I b have "trace_inv ds idxs outs s0 s'" by (blast intro: loop_body_trace_inv)
    moreover from I have "take (Suc s0) (st_seq s') = st_seq st" by (simp add: e)
    moreover from I have "take s0 (st_outputs_seq s') = st_outputs_seq st" by (simp add: e)
    moreover from I c have "int (length (st_seq s')) \<le> max (int (Suc s0)) ?L"
      by (simp add: e)
    moreover from I have "Suc s0 \<le> length (st_seq s')" "s0 \<le> length (st_outputs_seq s')"
      by (simp_all add: e)
    ultimately show ?thesis by blast
  qed
  have step': "\<forall>s s'. ?I s \<longrightarrow> int (length (st_seq s)) < ?L \<longrightarrow>
      loop_body g ds idxs outs s = Inr s' \<longrightarrow> ?I s'"
    using step by blast
  from gen_loop_inv_aux[where I = ?I, OF run init step']
  have fin: "?I st'" and stop: "\<not> int (length (st_seq st')) < ?L" by blast+
  from fin show "trace_inv ds idxs outs s0 st'" by blast
  from fin show "take (Suc s0) (st_seq st') = st_seq st" by blast
  from fin show "take s0 (st_outputs_seq st') = st_outputs_seq st" by blast
  from fin have "Suc s0 \<le> length (st_seq st')"
    and "int (length (st_seq st')) \<le> max (int (Suc s0)) ?L" by blast+
  with stop show "int (length (st_seq st')) = max (int (Suc s0)) ?L" by linarith
qed

lemma gen_loop_range:
  assumes run: "gen_loop g ds idxs outs st = Inr st'"
    and ok: "generator_ok g"
    and o: "set outs \<subseteq> set (self_tok_range ds)"
    and i: "set (st_seq st) \<subseteq> set (self_tok_range ds)"
  shows "set (st_seq st') \<subseteq> set (self_tok_range ds)"
proof -
  let ?I = "\<lambda>s. set (st_seq s) \<subseteq> set (self_tok_range ds)"
  have step: "?I s'" if I: "?I s" and b: "loop_body g ds idxs outs s = Inr s'" for s s'
    using b
  proof (cases rule: loop_body_cases)
    case fire
    from fire(2) o have "outs ! list_index idxs (last (st_seq s)) \<in> set (self_tok_range ds)"
      using nth_mem by blast
    with I show ?thesis by (simp add: fire(3))
  next
    case (background x r')
    from generator_ok_choice[OF ok background(2)] I show ?thesis
      by (simp add: background(3))
  qed
  then have step': "\<forall>s s'. ?I s \<longrightarrow> int (length (st_seq s)) < self_seq_length ds + 1 \<longrightarrow>
      loop_body g ds idxs outs s = Inr s' \<longrightarrow> ?I s'"
    by blast
  from gen_loop_inv_aux[where I = ?I, OF run i step'] show ?thesis by blast
qed

lemma gen_seq_cases:
  assumes "gen_seq g ds r = Inr ((seq, ann), r')"
  obtains idxs r1 pools outs r2 x r3 st where
    "select_idxs g ds r = Inr (idxs, r1)"
    "make_pools ds idxs = Inr pools"
    "select_outs g ds r1 idxs pools = Inr (outs, r2)"
    "rng_choice g r2 (self_tok_range ds) (Some (self_marginal ds)) = Inr (x, r3)"
    "gen_loop g ds idxs outs
       \<lparr>st_rng = r3, st_cnts = Map.empty,
        st_seq = (if self_show_latents ds then idxs else []) @ [x],
        st_outputs_seq = (if self_show_latents ds then replicate (length idxs) (- 1) else [])\<rparr>
     = Inr st"
    "seq = st_seq st" "ann = st_outputs_seq st @ [0]" "r' = st_rng st"
  using assms unfolding gen_seq_def Let_def
  by (auto split: sum.splits prod.splits)

text \<open>What one call of \<open>gen_seq\<close> returns, in terms of its special tokens and responses.\<close>

lemma gen_seq_trace:
  assumes run: "gen_seq g ds r = Inr ((seq, ann), r')"
    and sel: "select_idxs g ds r = Inr (idxs, r1)"
  defines "s0 \<equiv> (if self_show_latents ds then length idxs else 0)"
  shows "length ann = length seq"
    and "int (length seq) = max (int s0 + 1) (self_seq_length ds + 1)"
    and "take s0 seq = (if self_show_latents ds then idxs else [])"
    and "ann ! (length seq - 1) = 0"
    and "\<exists>pools outs r2. make_pools ds idxs = Inr pools \<and>
           select_outs g ds r1 idxs pools = Inr (outs, r2) \<and>
           (\<forall>j. s0 \<le> j \<and> Suc j < length seq \<longrightarrow> position_ok ds idxs outs s0 seq ann j)"
proof -
  from run obtain idxs' r1' pools outs r2 x r3 st where
    s: "select_idxs g ds r = Inr (idxs', r1')"
    and p: "make_pools ds idxs' = Inr pools"
    and o: "select_outs g ds r1' idxs' pools = Inr (outs, r2)"
    and l: "gen_loop g ds idxs' outs
       \<lparr>st_rng = r3, st_cnts = Map.empty,
        st_seq = (if self_show_latents ds then idxs' else []) @ [x],
        st_outputs_seq = (if self_show_latents ds then replicate (length idxs') (- 1) else [])\<rparr>
     = Inr st"
    and e: "seq = st_seq st" "ann = st_outputs_seq st @ [0]"
    by (rule gen_seq_cases)
  from s sel have i: "idxs' = idxs" "r1' = r1" by simp_all
  let ?st0 = "\<lparr>st_rng = r3, st_cnts = Map.empty,
        st_seq = (if self_show_latents ds then idxs else []) @ [x],
        st_outputs_seq = (if self_show_latents ds then replicate (length idxs) (- 1) else [])\<rparr>"
  have i1: "length (st_seq ?st0) = Suc s0" by (simp add: s0_def)
  have i2: "length (st_outputs_seq ?st0) = s0" by (simp add: s0_def)
  have i3: "st_cnts ?st0 = Map.empty" by simp
  note sh = gen_loop_shape[OF l[unfolded i] i1 i2 i3]
  from sh(1) have B: "s0 < length seq" and A: "length (st_outputs_seq st) + 1 = length seq"
    and C: "\<And>j. s0 \<le> j \<Longrightarrow> Suc j < length seq \<Longrightarrow>
              position_ok ds idxs outs s0 seq (st_outputs_seq st) j"
    unfolding trace_inv_def e by blast+
  from A show "length ann = length seq" by (simp add: e)
  from sh(4) show "int (length seq) = max (int s0 + 1) (self_seq_length ds + 1)"
    by (simp add: e)
  from sh(2) have "take s0 (take (Suc s0) seq) = take s0 (st_seq ?st0)"
    by (simp only: e)
  then show "take s0 seq = (if self_show_latents ds then idxs else [])"
    by (simp add: s0_def min_def)
  from A have "length seq - 1 = length (st_outputs_seq st)" by simp
  then show "ann ! (length seq - 1) = 0" by (simp only: e nth_append_length)
  have "position_ok ds idxs outs s0 seq ann j" if "s0 \<le> j" "Suc j < length seq" for j
  proof -
    from that A have "j < length (st_outputs_seq st)" by simp
    from C[OF that] show ?thesis
      unfolding e(2) by (simp only: position_ok_ann[OF \<open>j < length (st_outputs_seq st)\<close>])
  qed
  with p o i show "\<exists>pools outs r2. make_pools ds idxs = Inr pools \<and>
           select_outs g ds r1 idxs pools = Inr (outs, r2) \<and>
           (\<forall>j. s0 \<le> j \<and> Suc j < length seq \<longrightarrow> position_ok ds idxs outs s0 seq ann j)"
    by blast
qed

section \<open>The batch stream\<close>

lemma resume_yield:
  assumes "resume g it r = (Inr (inp, tgt, lab), it')"
  shows "\<exists>x outs r1. gen_batch g (it_dataset it) r (it_batch_size it) = Inr ((x, outs), r1) \<and>
           inp = drop_last_col x \<and> tgt = drop_first_col x \<and> lab = drop_last_col outs"
  using assms by (auto simp: resume_def split: sum.splits)

lemma next_batch_yield:
  assumes "next_batch g it = (Inr (inp, tgt, lab), it')"
  shows "\<exists>x outs r0 r1. gen_batch g (it_dataset it) r0 (it_batch_size it) = Inr ((x, outs), r1) \<and>
           inp = drop_last_col x \<and> tgt = drop_first_col x \<and> lab = drop_last_col outs"
proof (cases "it_state it")
  case Created
  with assms have "resume g it (default_rng g (it_seed it)) = (Inr (inp, tgt, lab), it')"
    by (simp add: next_batch_def)
  from resume_yield[OF this] show ?thesis by blast
next
  case (Suspended r)
  with assms have "resume g it r = (Inr (inp, tgt, lab), it')"
    by (simp add: next_batch_def)
  from resume_yield[OF this] show ?thesis by blast
next
  case Closed
  with assms show ?thesis by (simp add: next_batch_def)
qed




section \<open>Runs on the test data\<close>

lemma init1: "Dataset_init tape_gen args1 None False meta4 = Inr ds1"
  by code_simp

lemma run1:
  "gen_seq tape_gen ds1 [1, 1, 2] = Inr (([2, 1, 2, 1, 2, 1], [1, 1, 2, 2, 3, 0]), [])"
  by code_simp

lemma sel1: "select_idxs tape_gen ds1 [1, 1, 2] = Inr ([2, 1], [1, 1, 2])"
  by code_simp

lemma init_latents:
  "Dataset_init tape_gen (args1\<lparr>args_show_latents := True\<rparr>) None False meta4 =
   Inr (ds1\<lparr>self_show_latents := True\<rparr>)"
  by code_simp

lemma run_latents:
  "gen_seq tape_gen (ds1\<lparr>self_show_latents := True\<rparr>) [1, 1, 2] =
   Inr (([2, 1, 2, 1, 2, 1], [- 1, - 1, 1, 1, 2, 0]), [])"
  by code_simp

lemma init_short:
  "Dataset_init tape_gen (args1\<lparr>args_show_latents := True, args_seq_length := 1\<rparr>) None False meta4 =
   Inr (ds1\<lparr>self_show_latents := True, self_seq_length := 1\<rparr>)"
  by code_simp

lemma run_short:
  "gen_seq tape_gen (ds1\<lparr>self_show_latents := True, self_seq_length := 1\<rparr>) [1, 1, 2] =
   Inr (([2, 1, 2], [- 1, - 1, 0]), [])"
  by code_simp

lemma run_nocount:
  "gen_seq tape_gen (ds1\<lparr>self_output_counter := False\<rparr>) [1, 1, 2] =
   Inr (([2, 1, 2, 1, 2, 1], [1, 1, 1, 1, 1, 0]), [])"
  by code_simp

lemma sel_nocount:
  "select_idxs tape_gen (ds1\<lparr>self_output_counter := False\<rparr>) [1, 1, 2] = Inr ([2, 1], [1, 1, 2])"
  by code_simp

lemma pools1: "make_pools ds1 [2, 1] = Inr [[0, 1, 3], [0, 2, 3]]"
  by code_simp

lemma outs1: "select_outs tape_gen ds1 [1, 1, 2] [2, 1] [[0, 1, 3], [0, 2, 3]] = Inr ([1, 2], [2])"
  by code_simp

lemma init_train:
  "Dataset_init tape_gen args1 (Some ''train'') False meta4 =
   Inr (ds1\<lparr>self_train_test := Some ''train'', self_n_train_toks := 3\<rparr>)"
  by code_simp

lemma pools_train:
  "make_pools (ds1\<lparr>self_train_test := Some ''train'', self_n_train_toks := 3\<rparr>) [2, 1] =
   Inr [[0, 1, 3], [0, 2, 3]]"
  by code_simp

lemma outs_train:
  "select_outs tape_gen (ds1\<lparr>self_train_test := Some ''train'', self_n_train_toks := 3\<rparr>)
     [3, 4] [2, 1] [[0, 1, 3], [0, 2, 3]] = Inr ([0, 2], [])"
  by code_simp

lemma init_test:
  "Dataset_init tape_gen (args1\<lparr>args_no_repeat := False\<rparr>) (Some ''test'') False meta4 =
   Inr (ds1\<lparr>self_train_test := Some ''test'', self_no_repeat := False,
            self_n_train_toks := 3\<rparr>)"
  by code_simp

lemma pools_test:
  "make_pools (ds1\<lparr>self_train_test := Some ''test'', self_no_repeat := False,
                  self_n_train_toks := 3\<rparr>) [2, 1] =
   Inr [[0, 1, 2, 3], [0, 1, 2, 3]]"
  by code_simp

lemma outs_test:
  "select_outs tape_gen (ds1\<lparr>self_train_test := Some ''test'', self_no_repeat := False,
                           self_n_train_toks := 3\<rparr>)
     [3, 4] [2, 1] [[0, 1, 2, 3], [0, 1, 2, 3]] = Inr ([3, 3], [])"
  by code_simp

lemma next1: "fst (next_batch tape_gen (iterate_batches ds1 2 7)) = Inr batch_a"
  by code_simp


section \<open>The claims\<close>

text \<open>
  C9. Constructing a Dataset with a train/test split (\<open>train_test\<close> not None) together
  with \<open>bigram_outs\<close> raises AssertionError at line 43, whatever the statistics
  loaded; with the split inactive or \<open>bigram_outs\<close> false the constructor never raises
  AssertionError.
\<close>

theorem init_rejects_split_with_bigram:
  "(Dataset_init g args train_test bigram_outs meta = Inl AssertionError) =
   (train_test \<noteq> None \<and> bigram_outs)"
  using set_unigrams_not_assert[of "stoi meta" "unigrams meta"]
    add_bigrams_not_assert[of g "stoi meta" "bigrams meta"]
  by (auto simp: Dataset_init_def Let_def split: sum.splits)

theorem init_rejects_split_with_bigram_witness:
  "Dataset_init tape_gen args1 (Some ''train'') True meta4 = Inl AssertionError \<and>
   Dataset_init tape_gen args1 (Some ''train'') False meta4 \<noteq> Inl AssertionError \<and>
   Dataset_init tape_gen args1 None True meta4 \<noteq> Inl AssertionError"
  using init_rejects_split_with_bigram[of tape_gen args1 "Some ''train''" True meta4]
    init_rejects_split_with_bigram[of tape_gen args1 "Some ''train''" False meta4]
    init_rejects_split_with_bigram[of tape_gen args1 None True meta4]
  by simp

text \<open>
  C1 (as amended). The sequence and the annotation \<open>gen_seq\<close> returns have the same
  length in every configuration; and for a constructed dataset with \<open>seq_length \<ge> 0\<close> in
  which \<open>show_latents\<close> is disabled or \<open>0 \<le> k \<le> seq_length\<close>, that length is exactly
  \<open>seq_length + 1\<close>.
\<close>

theorem gen_seq_lengths:
  assumes init: "Dataset_init g args train_test bigram_outs meta = Inr ds"
    and ok: "generator_ok g"
    and run: "gen_seq g ds r = Inr ((seq, ann), r')"
  shows "length ann = length seq \<and>
         (0 \<le> args_seq_length args \<and>
          (args_show_latents args \<longrightarrow> 0 \<le> args_k args \<and> args_k args \<le> args_seq_length args)
          \<longrightarrow> int (length seq) = args_seq_length args + 1)"
proof -
  note f = Dataset_init_fields[OF init]
  from run obtain idxs r1 where sel: "select_idxs g ds r = Inr (idxs, r1)"
    by (rule gen_seq_cases)
  note t = gen_seq_trace[OF run sel]
  have "int (length seq) = args_seq_length args + 1"
    if L: "0 \<le> args_seq_length args"
      and k: "args_show_latents args \<longrightarrow> 0 \<le> args_k args \<and> args_k args \<le> args_seq_length args"
  proof -
    have "int (if self_show_latents ds then length idxs else 0) \<le> args_seq_length args"
    proof (cases "self_show_latents ds")
      case True
      with k f(3) have "0 \<le> args_k args" "args_k args \<le> args_seq_length args" by simp_all
      with select_idxs_length[OF init ok sel] True show ?thesis by simp
    next
      case False
      with L show ?thesis by simp
    qed
    with t(2) f(2) show ?thesis by simp
  qed
  with t(1) show ?thesis by blast
qed

theorem gen_seq_lengths_witness:
  "Dataset_init tape_gen (args1\<lparr>args_show_latents := True\<rparr>) None False meta4 =
     Inr (ds1\<lparr>self_show_latents := True\<rparr>) \<and>
   generator_ok tape_gen \<and>
   gen_seq tape_gen (ds1\<lparr>self_show_latents := True\<rparr>) [1, 1, 2] =
     Inr (([2, 1, 2, 1, 2, 1], [- 1, - 1, 1, 1, 2, 0]), []) \<and>
   length [- 1, - 1, 1, 1, 2, 0 :: int] = length [2, 1, 2, 1, 2, 1 :: nat] \<and>
   int (length [2, 1, 2, 1, 2, 1 :: nat]) = 5 + 1"
  using gen_seq_lengths[OF init_latents tape_gen_ok run_latents]
    init_latents tape_gen_ok run_latents
  by (simp add: args1_def)

text \<open>
  The claim as stated fails with \<open>show_latents\<close> and \<open>k > seq_length\<close>: for \<open>k = 2\<close> and
  \<open>seq_length = 1\<close> the two latent tokens and the first draw already make three tokens,
  the loop of line 110 does not run, and the sequence has length 3, not 2.
\<close>

theorem gen_seq_lengths_counterexample:
  "Dataset_init tape_gen (args1\<lparr>args_show_latents := True, args_seq_length := 1\<rparr>) None False meta4 =
     Inr (ds1\<lparr>self_show_latents := True, self_seq_length := 1\<rparr>) \<and>
   gen_seq tape_gen (ds1\<lparr>self_show_latents := True, self_seq_length := 1\<rparr>) [1, 1, 2] =
     Inr (([2, 1, 2], [- 1, - 1, 0]), []) \<and>
   int (length [2, 1, 2 :: nat]) \<noteq>
     args_seq_length (args1\<lparr>args_show_latents := True, args_seq_length := 1\<rparr>) + 1"
  using init_short run_short by simp

text \<open>
  C10. With \<open>show_latents\<close> disabled, the annotation at a position \<open>j < seq_length\<close> is
  non-zero exactly when the token at \<open>j\<close> is one of the special tokens of the sequence,
  and the annotation at position \<open>seq_length\<close> is 0.
\<close>

theorem annotation_marks_triggers:
  assumes run: "gen_seq g ds r = Inr ((seq, ann), r')"
    and sel: "select_idxs g ds r = Inr (idxs, r1)"
    and lat: "\<not> self_show_latents ds"
    and L: "0 \<le> self_seq_length ds"
  shows "(\<forall>j. int j < self_seq_length ds \<longrightarrow> (ann ! j \<noteq> 0) = (seq ! j \<in> set idxs)) \<and>
         ann ! nat (self_seq_length ds) = 0"
proof -
  note t = gen_seq_trace[OF run sel]
  from t(2) lat L have len: "int (length seq) = self_seq_length ds + 1" by simp
  from t(5) lat obtain outs where
    C: "\<And>j. Suc j < length seq \<Longrightarrow> position_ok ds idxs outs 0 seq ann j"
    by auto
  have "(ann ! j \<noteq> 0) = (seq ! j \<in> set idxs)" if "int j < self_seq_length ds" for j
  proof -
    from that len have "Suc j < length seq" by simp
    from C[OF this] count_self_pos[of 0 j seq] show ?thesis
      by (auto simp: position_ok_def split: if_splits)
  qed
  moreover from len have "length seq - 1 = nat (self_seq_length ds)" by simp
  with t(4) have "ann ! nat (self_seq_length ds) = 0" by simp
  ultimately show ?thesis by blast
qed

theorem annotation_marks_triggers_witness:
  "gen_seq tape_gen ds1 [1, 1, 2] = Inr (([2, 1, 2, 1, 2, 1], [1, 1, 2, 2, 3, 0]), []) \<and>
   select_idxs tape_gen ds1 [1, 1, 2] = Inr ([2, 1], [1, 1, 2]) \<and>
   \<not> self_show_latents ds1 \<and> 0 \<le> self_seq_length ds1 \<and>
   ([1, 1, 2, 2, 3, 0 :: int] ! 3 \<noteq> 0) = ([2, 1, 2, 1, 2, 1 :: nat] ! 3 \<in> set [2, 1]) \<and>
   [1, 1, 2, 2, 3, 0 :: int] ! nat (self_seq_length ds1) = 0"
proof -
  have a: "\<not> self_show_latents ds1" "0 \<le> self_seq_length ds1" "int 3 < self_seq_length ds1"
    by (simp_all add: ds1_def)
  from annotation_marks_triggers[OF run1 sel1 a(1,2)] a(3)
  have "([1, 1, 2, 2, 3, 0 :: int] ! 3 \<noteq> 0) = ([2, 1, 2, 1, 2, 1 :: nat] ! 3 \<in> set [2, 1])"
    and "[1, 1, 2, 2, 3, 0 :: int] ! nat (self_seq_length ds1) = 0"
    by blast+
  with run1 sel1 a show ?thesis by blast
qed

text \<open>
  C5. At a step the loop takes from a special token (a position \<open>j\<close> the loop has read,
  with a successor, holding a special token) the annotation is, with \<open>output_counter\<close>,
  the number of loop steps up to and including this one that were taken from this same
  token, so 1 at its first firing, 2 at its second, counted for each token apart; and
  it is the constant 1 without \<open>output_counter\<close>. With \<open>show_latents\<close> the loop reads
  from the position after the latent tokens.
\<close>

theorem annotation_counts_firings:
  assumes run: "gen_seq g ds r = Inr ((seq, ann), r')"
    and sel: "select_idxs g ds r = Inr (idxs, r1)"
    and j: "(if self_show_latents ds then length idxs else 0) \<le> j" "Suc j < length seq"
    and trig: "seq ! j \<in> set idxs"
  shows "ann ! j =
    (if self_output_counter ds
     then int (length (filter (\<lambda>i. seq ! i = seq ! j)
                         [(if self_show_latents ds then length idxs else 0)..<Suc j]))
     else 1)"
proof -
  from gen_seq_trace(5)[OF run sel] j obtain outs where
    "position_ok ds idxs outs (if self_show_latents ds then length idxs else 0) seq ann j"
    by blast
  with trig show ?thesis by (simp add: position_ok_def)
qed

theorem annotation_counts_firings_witness:
  "gen_seq tape_gen ds1 [1, 1, 2] = Inr (([2, 1, 2, 1, 2, 1], [1, 1, 2, 2, 3, 0]), []) \<and>
   [1, 1, 2, 2, 3, 0 :: int] ! 4 = 3 \<and>
   gen_seq tape_gen (ds1\<lparr>self_output_counter := False\<rparr>) [1, 1, 2] =
     Inr (([2, 1, 2, 1, 2, 1], [1, 1, 1, 1, 1, 0]), []) \<and>
   [1, 1, 1, 1, 1, 0 :: int] ! 4 = 1"
proof -
  have "[1, 1, 2, 2, 3, 0 :: int] ! 4 = 3"
    using annotation_counts_firings[OF run1 sel1, of 4] by (simp add: ds1_def)
  moreover have "[1, 1, 1, 1, 1, 0 :: int] ! 4 = 1"
    using annotation_counts_firings[OF run_nocount sel_nocount, of 4] by (simp add: ds1_def)
  ultimately show ?thesis using run1 run_nocount by blast
qed

text \<open>
  C7. Every token of a sequence \<open>gen_seq\<close> returns is below the vocabulary size (token
  ids are natural numbers, so they lie in \<open>[0, V)\<close>): the latent special tokens, the first
  draw, the draws from the conditional rows and the responses alike. The generator is
  assumed to return elements of the array it draws from, and \<open>argsort\<close> indices of the
  array it sorts.
\<close>

theorem tokens_in_vocabulary:
  assumes init: "Dataset_init g args train_test bigram_outs meta = Inr ds"
    and ok: "generator_ok g"
    and aok: "argsort_ok g"
    and run: "gen_seq g ds r = Inr ((seq, ann), r')"
  shows "set seq \<subseteq> {0..<vocab_size meta}"
proof -
  note f = Dataset_init_fields[OF init]
  from run obtain idxs r1 pools outs r2 x r3 st where
    s: "select_idxs g ds r = Inr (idxs, r1)"
    and p: "make_pools ds idxs = Inr pools"
    and o: "select_outs g ds r1 idxs pools = Inr (outs, r2)"
    and c: "rng_choice g r2 (self_tok_range ds) (Some (self_marginal ds)) = Inr (x, r3)"
    and l: "gen_loop g ds idxs outs
       \<lparr>st_rng = r3, st_cnts = Map.empty,
        st_seq = (if self_show_latents ds then idxs else []) @ [x],
        st_outputs_seq = (if self_show_latents ds then replicate (length idxs) (- 1) else [])\<rparr>
     = Inr st"
    and e: "seq = st_seq st"
    by (rule gen_seq_cases)
  from select_idxs_props(1)[OF init ok aok s] f(9) have "set idxs \<subseteq> set (self_tok_range ds)"
    by simp
  moreover from generator_ok_choice[OF ok c] have "x \<in> set (self_tok_range ds)" .
  ultimately have i: "set (st_seq \<lparr>st_rng = r3, st_cnts = Map.empty,
        st_seq = (if self_show_latents ds then idxs else []) @ [x],
        st_outputs_seq = (if self_show_latents ds then replicate (length idxs) (- 1) else [])\<rparr>)
      \<subseteq> set (self_tok_range ds)"
    by auto
  from gen_loop_range[OF l ok select_outs_range[OF ok p o] i] e f(9) show ?thesis by simp
qed

theorem tokens_in_vocabulary_witness:
  "Dataset_init tape_gen args1 None False meta4 = Inr ds1 \<and> generator_ok tape_gen \<and>
   argsort_ok tape_gen \<and>
   gen_seq tape_gen ds1 [1, 1, 2] = Inr (([2, 1, 2, 1, 2, 1], [1, 1, 2, 2, 3, 0]), []) \<and>
   set [2, 1, 2, 1, 2, 1 :: nat] \<subseteq> {0..<vocab_size meta4}"
  using tokens_in_vocabulary[OF init1 tape_gen_ok tape_gen_argsort_ok run1]
    init1 tape_gen_ok tape_gen_argsort_ok run1 by blast

text \<open>
  C6. With \<open>no_repeat\<close>, in every sampling mode, the response chosen for a special token
  differs from the token itself; so wherever the loop takes a step from a special token,
  the next token of the sequence is a different id.
\<close>

theorem no_self_response:
  assumes init: "Dataset_init g args train_test bigram_outs meta = Inr ds"
    and ok: "generator_ok g"
    and nr: "args_no_repeat args"
    and run: "gen_seq g ds r = Inr ((seq, ann), r')"
    and sel: "select_idxs g ds r = Inr (idxs, r1)"
    and p: "make_pools ds idxs = Inr pools"
    and o: "select_outs g ds r1 idxs pools = Inr (outs, r2)"
  shows "(\<forall>i. i < length idxs \<longrightarrow> outs ! i \<noteq> idxs ! i) \<and>
         (\<forall>j. (if self_show_latents ds then length idxs else 0) \<le> j \<and> Suc j < length seq \<and>
               seq ! j \<in> set idxs \<longrightarrow> seq ! Suc j \<noteq> seq ! j)"
proof -
  note f = Dataset_init_fields[OF init]
  note len = make_pools_nth(1)[OF p]
  have a: "outs ! i \<noteq> idxs ! i" if il: "i < length idxs" for i
  proof -
    from select_outs_nth(2)[OF ok len o il] have "outs ! i \<in> set (pools ! i)"
      by (auto split: option.splits if_splits dest: in_set_takeD in_set_dropD)
    with make_pools_nth(2)[OF p il] nr f(6) f(9)
    have "outs ! i \<in> set (remove1 (idxs ! i) [0..<vocab_size meta])" by simp
    then show ?thesis by auto
  qed
  have b: "seq ! Suc j \<noteq> seq ! j"
    if j: "(if self_show_latents ds then length idxs else 0) \<le> j" "Suc j < length seq"
      and t: "seq ! j \<in> set idxs" for j
  proof -
    from gen_seq_trace(5)[OF run sel] p o j have
      "position_ok ds idxs outs (if self_show_latents ds then length idxs else 0) seq ann j"
      by auto
    with t have "seq ! Suc j = outs ! list_index idxs (seq ! j)"
      by (simp add: position_ok_def)
    with a[OF list_index_less[OF t]] nth_list_index[OF t] show ?thesis by simp
  qed
  from a b show ?thesis by blast
qed

theorem no_self_response_witness:
  "Dataset_init tape_gen args1 None False meta4 = Inr ds1 \<and> generator_ok tape_gen \<and>
   args_no_repeat args1 \<and>
   gen_seq tape_gen ds1 [1, 1, 2] = Inr (([2, 1, 2, 1, 2, 1], [1, 1, 2, 2, 3, 0]), []) \<and>
   select_idxs tape_gen ds1 [1, 1, 2] = Inr ([2, 1], [1, 1, 2]) \<and>
   make_pools ds1 [2, 1] = Inr [[0, 1, 3], [0, 2, 3]] \<and>
   select_outs tape_gen ds1 [1, 1, 2] [2, 1] [[0, 1, 3], [0, 2, 3]] = Inr ([1, 2], [2]) \<and>
   [1, 2 :: nat] ! 0 \<noteq> [2, 1] ! 0 \<and> [1, 2 :: nat] ! 1 \<noteq> [2, 1] ! 1 \<and>
   [2, 1, 2, 1, 2, 1 :: nat] ! Suc 2 \<noteq> [2, 1, 2, 1, 2, 1] ! 2"
proof -
  have nr: "args_no_repeat args1" by (simp add: args1_def)
  note t = no_self_response[OF init1 tape_gen_ok nr run1 sel1 pools1 outs1]
  from t have "[1, 2 :: nat] ! 0 \<noteq> [2, 1] ! 0" "[1, 2 :: nat] ! 1 \<noteq> [2, 1] ! 1" by simp_all
  moreover from t have "[2, 1, 2, 1, 2, 1 :: nat] ! Suc 2 \<noteq> [2, 1, 2, 1, 2, 1] ! 2"
    by (simp add: ds1_def)
  ultimately show ?thesis using init1 tape_gen_ok nr run1 sel1 pools1 outs1 by blast
qed

text \<open>
  C3. With a train/test split, the pool of a special token is \<open>tok_range\<close>, without the
  token itself under \<open>no_repeat\<close>; its response is drawn in train mode from the first
  \<open>int(0.75 * V)\<close> positions of that pool and in test mode from the remaining positions,
  and the two portions of a pool have no id in common.
\<close>

theorem split_response_pools:
  assumes init: "Dataset_init g args train_test bigram_outs meta = Inr ds"
    and ok: "generator_ok g"
    and tt: "train_test = Some ''train'' \<or> train_test = Some ''test''"
    and p: "make_pools ds idxs = Inr pools"
    and o: "select_outs g ds r1 idxs pools = Inr (outs, r2)"
    and i: "i < length idxs"
  shows "pools ! i = (if args_no_repeat args then remove1 (idxs ! i) [0..<vocab_size meta]
                      else [0..<vocab_size meta]) \<and>
         outs ! i \<in> set (if train_test = Some ''train''
                          then take ((3 * vocab_size meta) div 4) (pools ! i)
                          else drop ((3 * vocab_size meta) div 4) (pools ! i)) \<and>
         set (take ((3 * vocab_size meta) div 4) (pools ! i)) \<inter>
           set (drop ((3 * vocab_size meta) div 4) (pools ! i)) = {}"
proof -
  note f = Dataset_init_fields[OF init]
  note len = make_pools_nth(1)[OF p]
  from make_pools_nth(2)[OF p i] f(6) f(9)
  have pool: "pools ! i = (if args_no_repeat args then remove1 (idxs ! i) [0..<vocab_size meta]
                      else [0..<vocab_size meta])" by simp
  then have "distinct (pools ! i)" by simp
  then have dis: "set (take ((3 * vocab_size meta) div 4) (pools ! i)) \<inter>
           set (drop ((3 * vocab_size meta) div 4) (pools ! i)) = {}"
    by (rule set_take_disj_set_drop_if_distinct) simp
  from tt f(10) have n: "self_n_train_toks ds = (3 * vocab_size meta) div 4" by auto
  from select_outs_nth(2)[OF ok len o i] tt f(4) n
  have "outs ! i \<in> set (if train_test = Some ''train''
                          then take ((3 * vocab_size meta) div 4) (pools ! i)
                          else drop ((3 * vocab_size meta) div 4) (pools ! i))"
    by auto
  with pool dis show ?thesis by blast
qed

theorem split_response_pools_witness:
  "Dataset_init tape_gen args1 (Some ''train'') False meta4 =
     Inr (ds1\<lparr>self_train_test := Some ''train'', self_n_train_toks := 3\<rparr>) \<and>
   generator_ok tape_gen \<and>
   make_pools (ds1\<lparr>self_train_test := Some ''train'', self_n_train_toks := 3\<rparr>) [2, 1] =
     Inr [[0, 1, 3], [0, 2, 3]] \<and>
   select_outs tape_gen (ds1\<lparr>self_train_test := Some ''train'', self_n_train_toks := 3\<rparr>)
     [3, 4] [2, 1] [[0, 1, 3], [0, 2, 3]] = Inr ([0, 2], []) \<and>
   [0, 2 :: nat] ! 1 \<in> set (take 3 [0, 2, 3]) \<and>
   Dataset_init tape_gen (args1\<lparr>args_no_repeat := False\<rparr>) (Some ''test'') False meta4 =
     Inr (ds1\<lparr>self_train_test := Some ''test'', self_no_repeat := False,
              self_n_train_toks := 3\<rparr>) \<and>
   select_outs tape_gen (ds1\<lparr>self_train_test := Some ''test'', self_no_repeat := False,
                           self_n_train_toks := 3\<rparr>)
     [3, 4] [2, 1] [[0, 1, 2, 3], [0, 1, 2, 3]] = Inr ([3, 3], []) \<and>
   [3, 3 :: nat] ! 1 \<in> set (drop 3 [0, 1, 2, 3]) \<and>
   set (take 3 [0, 1, 2, 3 :: nat]) \<inter> set (drop 3 [0, 1, 2, 3]) = {}"
proof -
  have v: "(3 * vocab_size meta4) div 4 = 3" by (simp add: meta4_def)
  have tr: "Some ''train'' = Some ''train'' \<or> Some ''train'' = Some ''test''" by simp
  have te: "Some ''test'' = Some ''train'' \<or> Some ''test'' = Some ''test''" by simp
  have one: "1 < length [2, 1 :: nat]" by simp
  note a = split_response_pools[OF init_train tape_gen_ok tr pools_train outs_train one]
  note b = split_response_pools[OF init_test tape_gen_ok te pools_test outs_test one]
  from a[THEN conjunct2, THEN conjunct1]
  have "[0, 2 :: nat] ! 1 \<in> set (take 3 [0, 2, 3])" by (simp add: v)
  moreover from b[THEN conjunct2, THEN conjunct1]
  have "[3, 3 :: nat] ! 1 \<in> set (drop 3 [0, 1, 2, 3])" by (simp add: v)
  moreover from b[THEN conjunct2, THEN conjunct2]
  have "set (take 3 [0, 1, 2, 3 :: nat]) \<inter> set (drop 3 [0, 1, 2, 3]) = {}"
    by (simp add: v)
  ultimately show ?thesis
    using init_train tape_gen_ok pools_train outs_train init_test outs_test by blast
qed

text \<open>
  C4 (as amended). For a constructed dataset with \<open>0 \<le> k \<le> V\<close>, the special tokens of a
  sequence are exactly \<open>k\<close> distinct token ids: in random mode whenever the draw without
  replacement returns, and in fixed mode when moreover \<open>0 \<le> special_toks_offset\<close> and
  \<open>special_toks_offset + k \<le> V\<close>. In fixed mode they are chosen at construction, and they
  stand at the ranks \<open>special_toks_offset, ..., special_toks_offset + k - 1\<close> of the ranking
  \<open>rev (argsort marginal)\<close>, listed from the highest rank down; this ranking lists every
  token id once, by descending marginal probability as \<open>argsort\<close> compares them (tokens of
  equal probability in the order \<open>argsort\<close> gives them).
\<close>

theorem trigger_selection:
  assumes init: "Dataset_init g args train_test bigram_outs meta = Inr ds"
    and ok: "generator_ok g"
    and aok: "argsort_ok g"
    and k0: "0 \<le> args_k args"
    and kV: "args_k args \<le> int (vocab_size meta)"
    and win: "args_fixed_special_toks args \<longrightarrow>
                0 \<le> args_special_toks_offset args \<and>
                args_special_toks_offset args + args_k args \<le> int (vocab_size meta)"
    and sel: "select_idxs g ds r = Inr (idxs, r1)"
  shows "int (length idxs) = args_k args \<and> distinct idxs \<and>
         set idxs \<subseteq> {0..<vocab_size meta} \<and>
         (args_fixed_special_toks args \<longrightarrow>
            self_idxs ds = Some idxs \<and>
            rev idxs = take (nat (args_k args))
                         (drop (nat (args_special_toks_offset args))
                            (rev (np_argsort g (self_marginal ds)))) \<and>
            distinct (rev (np_argsort g (self_marginal ds))) \<and>
            set (rev (np_argsort g (self_marginal ds))) = {0..<vocab_size meta} \<and>
            sorted_wrt (\<lambda>i j. np_less_eq g (self_marginal ds ! j) (self_marginal ds ! i))
              (rev (np_argsort g (self_marginal ds))))"
proof -
  note f = Dataset_init_fields[OF init]
  note sp = select_idxs_props[OF init ok aok sel]
  let ?xs = "np_argsort g (self_marginal ds)"
  let ?k = "args_k args" and ?off = "args_special_toks_offset args"
  have lx: "length ?xs = vocab_size meta" by (simp add: length_argsort[OF aok] f(11))
  show ?thesis
  proof (cases "args_fixed_special_toks args")
    case True
    with win have o0: "0 \<le> ?off" and ok': "?off + ?k \<le> int (length ?xs)"
      by (simp_all add: lx)
    note fi = fixed_idxs[OF init sel True]
    from fi(2) have "idxs = py_slice ?xs (int (length ?xs) - ?off - ?k)
        (int (length ?xs) - ?off)"
      by (simp add: lx)
    with py_slice_window[OF o0 k0 ok']
    have ix: "idxs = take (nat ?k) (drop (length ?xs - nat ?off - nat ?k) ?xs)" by simp
    from o0 k0 ok' have le: "nat ?off + nat ?k \<le> length ?xs" by linarith
    from ix le have "length idxs = nat ?k" by simp
    with k0 have l: "int (length idxs) = ?k" by simp
    from ix rev_window[OF le] have
      r: "rev idxs = take (nat ?k) (drop (nat ?off) (rev ?xs))" by simp
    have d: "distinct (rev ?xs)" by (simp add: distinct_argsort[OF aok])
    have st: "set (rev ?xs) = {0..<vocab_size meta}"
      by (simp add: set_argsort[OF aok] f(11))
    from sorted_argsort[OF aok, of "self_marginal ds"]
    have so: "sorted_wrt (\<lambda>i j. np_less_eq g (self_marginal ds ! j) (self_marginal ds ! i))
              (rev ?xs)"
      by (simp add: sorted_wrt_rev)
    from l sp fi(1) r d st so show ?thesis by blast
  next
    case False
    from random_idxs(1)[OF init ok sel False] sp False show ?thesis by blast
  qed
qed

lemma init_rand:
  "Dataset_init tape_gen (args1\<lparr>args_fixed_special_toks := False\<rparr>) None False meta4 =
   Inr (ds1\<lparr>self_idxs := None\<rparr>)"
  by code_simp

lemma sel_rand: "select_idxs tape_gen (ds1\<lparr>self_idxs := None\<rparr>) [5, 7] = Inr ([1, 2], [])"
  by code_simp

lemma argsort1: "rev (np_argsort tape_gen (self_marginal ds1)) = [0, 1, 2, 3]"
  by code_simp

lemma init_tie:
  "Dataset_init tape_gen_ties args_tie None False meta_tie =
   Inr \<lparr>self_k = 1, self_seq_length = 5, self_show_latents = False,
        self_train_test = None, self_output_counter = True,
        self_no_repeat = False, self_bigram_outs = False,
        self_num_tokens = 4, self_tok_range = [0, 1, 2, 3],
        self_n_train_toks = 4,
        self_marginal = [1 / 3, 1 / 3, 1 / 6, 1 / 6],
        self_cond = [[0, 1, 0, 0], [0, 0, 1, 0], [0, 0, 0, 1], [1, 0, 0, 0]],
        self_idxs = Some [0]\<rparr>"
  by code_simp

lemma hyps_tie:
  "0 \<le> args_k args_tie" "args_k args_tie \<le> int (vocab_size meta_tie)"
  "args_fixed_special_toks args_tie \<longrightarrow>
     0 \<le> args_special_toks_offset args_tie \<and>
     args_special_toks_offset args_tie + args_k args_tie \<le> int (vocab_size meta_tie)"
  "args_fixed_special_toks args_tie"
  by (simp_all add: args_tie_def meta_tie_def)

lemma argsort_tie:
  "rev (np_argsort tape_gen_ties [1 / 3, 1 / 3, 1 / 6, 1 / 6]) = [0, 1, 2, 3]"
  "rev (np_argsort tape_gen [1 / 3, 1 / 3, 1 / 6, 1 / 6]) = [1, 0, 3, 2]"
  by code_simp+

theorem trigger_selection_witness:
  "Dataset_init tape_gen args1 None False meta4 = Inr ds1 \<and> generator_ok tape_gen \<and>
   argsort_ok tape_gen \<and>
   select_idxs tape_gen ds1 [1, 1, 2] = Inr ([2, 1], [1, 1, 2]) \<and>
   int (length [2, 1 :: nat]) = 2 \<and> distinct [2, 1 :: nat] \<and>
   rev [2, 1 :: nat] = take 2 (drop 1 [0, 1, 2, 3]) \<and>
   Dataset_init tape_gen (args1\<lparr>args_fixed_special_toks := False\<rparr>) None False meta4 =
     Inr (ds1\<lparr>self_idxs := None\<rparr>) \<and>
   select_idxs tape_gen (ds1\<lparr>self_idxs := None\<rparr>) [5, 7] = Inr ([1, 2], []) \<and>
   int (length [1, 2 :: nat]) = 2 \<and> distinct [1, 2 :: nat] \<and>
   argsort_ok tape_gen_ties \<and>
   rev (np_argsort tape_gen_ties [1 / 3, 1 / 3, 1 / 6, 1 / 6]) = [0, 1, 2, 3] \<and>
   rev [0 :: nat] = take 1 (drop 0 [0, 1, 2, 3])"
proof -
  note a = trigger_selection[OF init1 tape_gen_ok tape_gen_argsort_ok _ _ _ sel1]
  note b = trigger_selection[OF init_rand tape_gen_ok tape_gen_argsort_ok _ _ _ sel_rand]
  have gt: "generator_ok tape_gen_ties"
    using tape_gen_ok by (simp add: generator_ok_def tape_gen_ties_def)
  have st: "select_idxs tape_gen_ties
      \<lparr>self_k = 1, self_seq_length = 5, self_show_latents = False,
        self_train_test = None, self_output_counter = True,
        self_no_repeat = False, self_bigram_outs = False,
        self_num_tokens = 4, self_tok_range = [0, 1, 2, 3],
        self_n_train_toks = 4,
        self_marginal = [1 / 3, 1 / 3, 1 / 6, 1 / 6],
        self_cond = [[0, 1, 0, 0], [0, 0, 1, 0], [0, 0, 0, 1], [1, 0, 0, 0]],
        self_idxs = Some [0]\<rparr> [] = Inr ([0], [])"
    by (simp add: select_idxs_def)
  note c = trigger_selection[OF init_tie gt tape_gen_ties_argsort_ok hyps_tie(1,2,3) st]
  have "int (length [2, 1 :: nat]) = 2 \<and> distinct [2, 1 :: nat] \<and>
        rev [2, 1 :: nat] = take 2 (drop 1 [0, 1, 2, 3])"
    using a argsort1 by (simp add: args1_def meta4_def)
  moreover have "int (length [1, 2 :: nat]) = 2 \<and> distinct [1, 2 :: nat]"
    using b by (simp add: args1_def meta4_def)
  moreover have "rev [0 :: nat] = take 1 (drop 0 [0, 1, 2, 3])"
    using c hyps_tie(4) argsort_tie(1) by (simp add: args_tie_def)
  ultimately show ?thesis
    using init1 tape_gen_ok tape_gen_argsort_ok sel1 init_rand sel_rand
      tape_gen_ties_argsort_ok argsort_tie(1) by blast
qed

lemma init_off3:
  "Dataset_init tape_gen (args1\<lparr>args_special_toks_offset := 3\<rparr>) None False meta4 =
   Inr (ds1\<lparr>self_idxs := Some []\<rparr>)"
  by code_simp

lemma sel_off3: "select_idxs tape_gen (ds1\<lparr>self_idxs := Some []\<rparr>) [] = Inr ([], [])"
  by code_simp

text \<open>
  The claim as stated fails in fixed mode when the window leaves the vocabulary: with
  \<open>V = 4\<close>, \<open>k = 2\<close> and \<open>special_toks_offset = 3\<close> the slice of line 65 is
  \<open>argsort[-1:1]\<close>, which is empty, so no special token is selected.
\<close>

theorem trigger_selection_counterexample:
  "Dataset_init tape_gen (args1\<lparr>args_special_toks_offset := 3\<rparr>) None False meta4 =
     Inr (ds1\<lparr>self_idxs := Some []\<rparr>) \<and>
   0 \<le> args_k (args1\<lparr>args_special_toks_offset := 3\<rparr>) \<and>
   args_k (args1\<lparr>args_special_toks_offset := 3\<rparr>) \<le> int (vocab_size meta4) \<and>
   args_fixed_special_toks (args1\<lparr>args_special_toks_offset := 3\<rparr>) \<and>
   select_idxs tape_gen (ds1\<lparr>self_idxs := Some []\<rparr>) [] = Inr ([], []) \<and>
   int (length ([] :: nat list)) \<noteq> args_k (args1\<lparr>args_special_toks_offset := 3\<rparr>)"
  using init_off3 sel_off3 by (simp add: args1_def meta4_def)

text \<open>
  C8. Whenever \<open>next\<close> on the batch stream yields a triple, there is a batch \<open>(x, outs)\<close>
  returned by \<open>gen_batch\<close> such that the triple is \<open>x\<close> without its last column, \<open>x\<close>
  without its first column and \<open>outs\<close> without its last column; the three arrays have
  shape \<open>(batch_size, seq_length)\<close>, and \<open>target[i][j] = input[i][j + 1]\<close> for every row \<open>i\<close>
  and every \<open>j\<close> with \<open>j + 1 < seq_length\<close>. (For a batch size and a sequence length that
  are not negative, as the dimensions of an array are.)
\<close>

theorem batch_triple_shape:
  assumes nx: "next_batch g it = (Inr (inp, tgt, lab), it')"
    and b0: "0 \<le> it_batch_size it"
    and L0: "0 \<le> self_seq_length (it_dataset it)"
  shows "\<exists>x outs r0 r1.
           gen_batch g (it_dataset it) r0 (it_batch_size it) = Inr ((x, outs), r1) \<and>
           inp = drop_last_col x \<and> tgt = drop_first_col x \<and> lab = drop_last_col outs \<and>
           shape0 inp = nat (it_batch_size it) \<and>
           shape1 inp = nat (self_seq_length (it_dataset it)) \<and>
           shape0 tgt = nat (it_batch_size it) \<and>
           shape1 tgt = nat (self_seq_length (it_dataset it)) \<and>
           shape0 lab = nat (it_batch_size it) \<and>
           shape1 lab = nat (self_seq_length (it_dataset it)) \<and>
           (\<forall>i j. i < nat (it_batch_size it) \<and> Suc j < nat (self_seq_length (it_dataset it)) \<longrightarrow>
                  cell tgt i j = cell inp i (Suc j))"
proof -
  let ?ds = "it_dataset it" and ?b = "it_batch_size it"
  from next_batch_yield[OF nx] obtain x outs r0 r1 where
    gb: "gen_batch g ?ds r0 ?b = Inr ((x, outs), r1)"
    and e: "inp = drop_last_col x" "tgt = drop_first_col x" "lab = drop_last_col outs"
    by blast
  from gb obtain seqs os where
    rx: "reshape seqs ?b (self_seq_length ?ds + 1) = Inr x"
    and ro: "reshape os ?b (self_seq_length ?ds + 1) = Inr outs"
    by (auto simp: gen_batch_def split: sum.splits)
  from L0 have c0: "0 \<le> self_seq_length ?ds + 1" by simp
  note sx = reshape_ok[OF rx b0 c0] and so = reshape_ok[OF ro b0 c0]
  from L0 have c: "nat (self_seq_length ?ds + 1) - 1 = nat (self_seq_length ?ds)" by simp
  have shapes: "shape0 inp = nat ?b" "shape1 inp = nat (self_seq_length ?ds)"
    "shape0 tgt = nat ?b" "shape1 tgt = nat (self_seq_length ?ds)"
    "shape0 lab = nat ?b" "shape1 lab = nat (self_seq_length ?ds)"
    by (simp_all add: e drop_last_col_def drop_first_col_def sx so c)
  have lx: "length (data x) = shape0 x * shape1 x" by (simp add: sx)
  have "cell tgt i j = cell inp i (Suc j)"
    if "i < nat ?b" "Suc j < nat (self_seq_length ?ds)" for i j
    unfolding e using that
    by (intro shifted_columns[OF lx]) (simp_all add: sx c)
  with gb e shapes show ?thesis by blast
qed

theorem batch_triple_shape_witness:
  "fst (next_batch tape_gen (iterate_batches ds1 2 7)) = Inr batch_a \<and>
   shape0 (fst batch_a) = 2 \<and> shape1 (fst batch_a) = 5 \<and>
   shape0 (fst (snd batch_a)) = 2 \<and> shape1 (fst (snd batch_a)) = 5 \<and>
   shape0 (snd (snd batch_a)) = 2 \<and> shape1 (snd (snd batch_a)) = 5 \<and>
   cell (fst (snd batch_a)) 1 2 = cell (fst batch_a) 1 (Suc 2)"
proof -
  let ?it = "iterate_batches ds1 2 7 :: (real, nat list) batch_iter"
  have nb: "next_batch tape_gen ?it =
      (Inr (fst batch_a, fst (snd batch_a), snd (snd batch_a)), snd (next_batch tape_gen ?it))"
    using next1 by (metis prod.collapse)
  have b: "0 \<le> it_batch_size ?it" and l: "0 \<le> self_seq_length (it_dataset ?it)"
    by (simp_all add: iterate_batches_def ds1_def)
  from batch_triple_shape[OF nb b l] have
    sh: "shape0 (fst batch_a) = nat (it_batch_size ?it)"
      "shape1 (fst batch_a) = nat (self_seq_length (it_dataset ?it))"
      "shape0 (fst (snd batch_a)) = nat (it_batch_size ?it)"
      "shape1 (fst (snd batch_a)) = nat (self_seq_length (it_dataset ?it))"
      "shape0 (snd (snd batch_a)) = nat (it_batch_size ?it)"
      "shape1 (snd (snd batch_a)) = nat (self_seq_length (it_dataset ?it))"
    and c: "\<And>i j. i < nat (it_batch_size ?it) \<Longrightarrow>
              Suc j < nat (self_seq_length (it_dataset ?it)) \<Longrightarrow>
              cell (fst (snd batch_a)) i j = cell (fst batch_a) i (Suc j)"
    by blast+
  have v: "nat (it_batch_size ?it) = 2" "nat (self_seq_length (it_dataset ?it)) = 5"
    by (simp_all add: iterate_batches_def ds1_def)
  have "cell (fst (snd batch_a)) 1 2 = cell (fst batch_a) 1 (Suc 2)"
    by (rule c) (simp_all add: v)
  with sh next1 show ?thesis by (simp only: v)
qed



end
